theory Spec2Isabelle
  imports Main
begin

section \<open>Data model\<close>

text \<open>
  The program is a file server (\<^verbatim>\<open>file_server.py\<close>) and its test client
  (\<^verbatim>\<open>file_client_cli_test.py\<close>).  A Python \<^verbatim>\<open>bytes\<close> value is a list of
  \<^typ>\<open>char\<close> (HOL characters are exactly the 256 byte values); a Python \<^verbatim>\<open>str\<close> is
  a list of code points.
\<close>

type_synonym bytes = "char list"
type_synonym ustr = "nat list"

definition str :: "string \<Rightarrow> ustr" where
  "str s = map of_char s"

text \<open>
  The inbound half of a TCP connection: the data that successive \<^verbatim>\<open>recv\<close> calls
  find available, chunk after chunk, followed by the peer's close.  \<^verbatim>\<open>recv(n)\<close>
  returns at most \<open>n\<close> bytes of the first chunk and leaves the rest in the stream; on an
  exhausted stream it returns \<^verbatim>\<open>b""\<close>.  A chunk that is empty is likewise read as
  \<^verbatim>\<open>b""\<close>, which the program takes for the close.  A peer that stalls without ever
  closing is not represented: every stream ends.
\<close>

type_synonym conn = "bytes list"

definition recv :: "nat \<Rightarrow> conn \<Rightarrow> bytes \<times> conn" where
  "recv n s =
     (case s of
        [] \<Rightarrow> ([], [])
      | c # cs \<Rightarrow> if length c \<le> n then (c, cs) else (take n c, drop n c # cs))"

text \<open>What is left of a stream, as a number that every successful \<^verbatim>\<open>recv\<close> decreases.\<close>

definition pending :: "conn \<Rightarrow> nat" where
  "pending s = length (concat s) + length s"

definition BUFFER_SIZE :: nat where
  "BUFFER_SIZE = 524288"

definition DELIM :: bytes where
  "DELIM = [CHR 0x0D, CHR 0x0A, CHR 0x0D, CHR 0x0A]"

text \<open>
  \<^verbatim>\<open>bytes.find\<close>: index of the first occurrence, \<open>-1\<close> when there is none;
  \<^verbatim>\<open>pat in buf\<close> is the same search.
\<close>

fun find_sub :: "bytes \<Rightarrow> bytes \<Rightarrow> nat option" where
  "find_sub pat [] = (if pat = [] then Some 0 else None)"
| "find_sub pat (x # xs) =
     (if take (length pat) (x # xs) = pat then Some 0
      else map_option Suc (find_sub pat xs))"

definition bytes_find :: "bytes \<Rightarrow> bytes \<Rightarrow> int" where
  "bytes_find buf pat = (case find_sub pat buf of None \<Rightarrow> - 1 | Some i \<Rightarrow> int i)"

definition bytes_in :: "bytes \<Rightarrow> bytes \<Rightarrow> bool" where
  "bytes_in pat buf = (find_sub pat buf \<noteq> None)"

subsection \<open>Storage directory and observable effects\<close>

text \<open>
  The directory \<^verbatim>\<open>STORAGE_DIR\<close>, keyed by the file name that
  \<^verbatim>\<open>os.path.join(STORAGE_DIR, filename)\<close> appends to it.  An entry is a regular file
  with its content or a directory with the size \<^verbatim>\<open>os.path.getsize\<close> reports for it
  (on a POSIX system the names \<^verbatim>\<open>.\<close> and \<^verbatim>\<open>..\<close> are always directories).
  \<^verbatim>\<open>open(filepath, 'wb')\<close> raises \<^verbatim>\<open>IsADirectoryError\<close> on a directory, and another
  \<^verbatim>\<open>OSError\<close> for every name the platform refuses to open for writing (a name that is
  too long, an entry that may not be written); which names those are, and with which
  error number, is a parameter of the model (\<open>open_wb_errno\<close> below).  One handler runs
  at a time, so a file does not change between two calls of the same run.
\<close>

datatype entry = File bytes | Dir nat

type_synonym storage = "ustr \<Rightarrow> entry option"

datatype status = OK | ERROR

datatype os_error = IsADirectoryError ustr | OSError nat ustr

text \<open>
  The \<^verbatim>\<open>data\<close> member of a response: a message string, the
  \<^verbatim>\<open>{"filename": .., "filesize": ..}\<close> object of a successful GET, or the text
  \<^verbatim>\<open>str(e)\<close> of a caught exception.
\<close>

datatype json = JStr ustr | JFileInfo ustr nat | JExc os_error

text \<open>
  What one handler run does to the outside, in program order: responses written by
  \<^verbatim>\<open>send_json_response\<close>, raw payload chunks written by \<^verbatim>\<open>conn.sendall\<close>, and
  the calls that touch the storage directory.
\<close>

datatype effect =
    SendJson status json
  | SendAll bytes
  | PathExists ustr
  | GetSize ustr
  | OpenWrite ustr
  | OpenRead ustr

section \<open>Header text processing\<close>

text \<open>
  The tables of the Unicode database that CPython consults for code points outside
  ASCII, the interpreter's limit on the number of digits \<^verbatim>\<open>int()\<close> accepts
  (\<open>0\<close>: no limit), and the names that the file system refuses to open for writing
  (with the error number it gives) are not part of the repository: they are parameters.
  On ASCII the text functions below are written out.
\<close>

record py_env =
  u_isalnum :: "nat \<Rightarrow> bool"
  u_upper :: "nat \<Rightarrow> ustr"
  u_decimal :: "nat \<Rightarrow> nat option"
  max_str_digits :: nat
  open_wb_errno :: "ustr \<Rightarrow> nat option"

definition REPLACEMENT :: nat where
  "REPLACEMENT = 0xFFFD"

definition is_cont :: "nat \<Rightarrow> bool" where
  "is_cont b = (0x80 \<le> b \<and> b < 0xC0)"

definition valid_second :: "nat \<Rightarrow> nat \<Rightarrow> bool" where
  "valid_second b0 b1 =
     (is_cont b1 \<and>
      \<not> (b0 = 0xE0 \<and> b1 < 0xA0) \<and> \<not> (b0 = 0xED \<and> 0xA0 \<le> b1) \<and>
      \<not> (b0 = 0xF0 \<and> b1 < 0x90) \<and> \<not> (b0 = 0xF4 \<and> 0x90 \<le> b1))"

text \<open>
  \<^verbatim>\<open>bytes.decode(errors='replace')\<close> (UTF-8): every maximal ill-formed prefix becomes
  one U+FFFD, and a sequence cut short by the end of the data is treated like one cut
  short by a byte that does not continue it.
\<close>

fun utf8_replace :: "nat list \<Rightarrow> ustr" where
  "utf8_replace [] = []"
| "utf8_replace (b0 # bs) =
     (if b0 < 0x80 then b0 # utf8_replace bs
      else if b0 < 0xC2 \<or> 0xF5 \<le> b0 then REPLACEMENT # utf8_replace bs
      else (case bs of
        [] \<Rightarrow> [REPLACEMENT]
      | b1 # bs1 \<Rightarrow>
          if \<not> valid_second b0 b1 then REPLACEMENT # utf8_replace bs
          else if b0 < 0xE0 then ((b0 - 0xC0) * 64 + (b1 - 0x80)) # utf8_replace bs1
          else (case bs1 of
            [] \<Rightarrow> [REPLACEMENT]
          | b2 # bs2 \<Rightarrow>
              if \<not> is_cont b2 then REPLACEMENT # utf8_replace bs1
              else if b0 < 0xF0 then
                ((b0 - 0xE0) * 4096 + (b1 - 0x80) * 64 + (b2 - 0x80)) # utf8_replace bs2
              else (case bs2 of
                [] \<Rightarrow> [REPLACEMENT]
              | b3 # bs3 \<Rightarrow>
                  if \<not> is_cont b3 then REPLACEMENT # utf8_replace bs2
                  else ((b0 - 0xF0) * 262144 + (b1 - 0x80) * 4096 + (b2 - 0x80) * 64
                        + (b3 - 0x80)) # utf8_replace bs3))))"

definition decode_replace :: "bytes \<Rightarrow> ustr" where
  "decode_replace buf = utf8_replace (map of_char buf)"

text \<open>\<^verbatim>\<open>str.isspace\<close>, which \<^verbatim>\<open>strip()\<close> and \<^verbatim>\<open>split()\<close> use.\<close>

definition isspace :: "nat \<Rightarrow> bool" where
  "isspace c =
     ((0x09 \<le> c \<and> c \<le> 0x0D) \<or> (0x1C \<le> c \<and> c \<le> 0x20) \<or> c = 0x85 \<or> c = 0xA0 \<or>
      c = 0x1680 \<or> (0x2000 \<le> c \<and> c \<le> 0x200A) \<or> c = 0x2028 \<or> c = 0x2029 \<or>
      c = 0x202F \<or> c = 0x205F \<or> c = 0x3000)"

definition py_strip :: "ustr \<Rightarrow> ustr" where
  "py_strip t = rev (dropWhile isspace (rev (dropWhile isspace t)))"

fun split_acc :: "ustr \<Rightarrow> ustr \<Rightarrow> ustr list" where
  "split_acc cur [] = (if cur = [] then [] else [cur])"
| "split_acc cur (c # cs) =
     (if isspace c then (if cur = [] then split_acc [] cs else cur # split_acc [] cs)
      else split_acc (cur @ [c]) cs)"

definition py_split :: "ustr \<Rightarrow> ustr list" where
  "py_split t = split_acc [] t"

text \<open>\<^verbatim>\<open>str.upper\<close>.\<close>

definition upper_char :: "py_env \<Rightarrow> nat \<Rightarrow> ustr" where
  "upper_char E c =
     (if c < 0x80 then (if 0x61 \<le> c \<and> c \<le> 0x7A then [c - 0x20] else [c])
      else u_upper E c)"

definition py_upper :: "py_env \<Rightarrow> ustr \<Rightarrow> ustr" where
  "py_upper E t = concat (map (upper_char E) t)"

text \<open>
  The character class \<^verbatim>\<open>[\w\-.]\<close> of a \<^verbatim>\<open>str\<close> pattern: \<^verbatim>\<open>\w\<close> is an
  alphanumeric code point or the underscore.
\<close>

definition py_isalnum :: "py_env \<Rightarrow> nat \<Rightarrow> bool" where
  "py_isalnum E c =
     (if c < 0x80 then
        (0x30 \<le> c \<and> c \<le> 0x39) \<or> (0x41 \<le> c \<and> c \<le> 0x5A) \<or> (0x61 \<le> c \<and> c \<le> 0x7A)
      else u_isalnum E c)"

definition name_char :: "py_env \<Rightarrow> nat \<Rightarrow> bool" where
  "name_char E c = (py_isalnum E c \<or> c = 0x5F \<or> c = 0x2D \<or> c = 0x2E)"

text \<open>
  \<^verbatim>\<open>re.match(r'^[\w\-.]+$', filename) is not None\<close>.  Without \<^verbatim>\<open>re.MULTILINE\<close>,
  \<^verbatim>\<open>$\<close> matches at the end of the string and also just before a newline that ends it.
\<close>

definition is_valid_filename :: "py_env \<Rightarrow> ustr \<Rightarrow> bool" where
  "is_valid_filename E filename =
     (let body = (if filename \<noteq> [] \<and> last filename = 0x0A then butlast filename
                  else filename)
      in body \<noteq> [] \<and> list_all (name_char E) body)"

text \<open>
  \<^verbatim>\<open>int(tok)\<close> for a token of \<^verbatim>\<open>split()\<close>, which holds no white space: an optional
  sign, then decimal digits, single underscores allowed between digits.  A decimal digit
  outside ASCII counts with its value; \<open>None\<close> is \<^verbatim>\<open>ValueError\<close>.
\<close>

definition digit_val :: "py_env \<Rightarrow> nat \<Rightarrow> nat option" where
  "digit_val E c =
     (if c < 0x80 then (if 0x30 \<le> c \<and> c \<le> 0x39 then Some (c - 0x30) else None)
      else u_decimal E c)"

fun scan_digits :: "py_env \<Rightarrow> ustr \<Rightarrow> nat list option" where
  "scan_digits E [] = None"
| "scan_digits E [c] = map_option (\<lambda>d. [d]) (digit_val E c)"
| "scan_digits E (c # u # cs) =
     (case digit_val E c of
        None \<Rightarrow> None
      | Some d \<Rightarrow>
          map_option (Cons d) (if u = 0x5F then scan_digits E cs else scan_digits E (u # cs)))"

definition digits_value :: "nat list \<Rightarrow> int" where
  "digits_value ds = foldl (\<lambda>a d. 10 * a + int d) 0 ds"

definition py_int :: "py_env \<Rightarrow> ustr \<Rightarrow> int option" where
  "py_int E tok =
     (let (neg, body) =
            (case tok of
               [] \<Rightarrow> (False, [])
             | c # cs \<Rightarrow> if c = 0x2D then (True, cs) else if c = 0x2B then (False, cs)
                         else (False, tok))
      in case scan_digits E body of
           None \<Rightarrow> None
         | Some ds \<Rightarrow>
             if 0 < max_str_digits E \<and> max_str_digits E < length ds then None
             else Some (if neg then - digits_value ds else digits_value ds))"

section \<open>The server: \<^verbatim>\<open>handle_client_raw\<close>\<close>

text \<open>
  Lines 43-49: accumulate \<^verbatim>\<open>header_data\<close> until it contains the delimiter;
  \<open>None\<close> when the peer closes first (the handler then returns without a response).
\<close>

function read_header :: "bytes \<Rightarrow> conn \<Rightarrow> (bytes \<times> conn) option" where
  "read_header header_data s =
     (if bytes_in DELIM header_data then Some (header_data, s)
      else (case recv BUFFER_SIZE s of
              (chunk, s') \<Rightarrow>
                if chunk = [] then None else read_header (header_data @ chunk) s'))"
  by pat_completeness auto
termination
  by (relation "measure (\<lambda>(h, s). pending s)")
     (auto simp: recv_def pending_def BUFFER_SIZE_def split: list.splits if_splits)

declare read_header.simps [simp del]

text \<open>
  Lines 82-87: the receive loop of UPLOAD.  It returns the final \<^verbatim>\<open>remaining\<close>, all
  the bytes written to the file, and the unread rest of the stream.
\<close>

function upload_loop :: "int \<Rightarrow> bytes \<Rightarrow> conn \<Rightarrow> int \<times> bytes \<times> conn" where
  "upload_loop remaining written s =
     (if remaining > 0 then
        (case recv (min BUFFER_SIZE (nat remaining)) s of
           (chunk, s') \<Rightarrow>
             if chunk = [] then (remaining, written, s')
             else upload_loop (remaining - int (length chunk)) (written @ chunk) s')
      else (remaining, written, s))"
  by pat_completeness auto
termination
  by (relation "measure (\<lambda>(r, w, s). pending s)")
     (auto simp: recv_def pending_def BUFFER_SIZE_def split: list.splits if_splits)

declare upload_loop.simps [simp del]

text \<open>Lines 102-107: the file is read and sent in pieces of \<^verbatim>\<open>BUFFER_SIZE\<close> bytes.\<close>

function send_file :: "bytes \<Rightarrow> effect list" where
  "send_file content =
     (let chunk = take BUFFER_SIZE content
      in if chunk = [] then [] else SendAll chunk # send_file (drop BUFFER_SIZE content))"
  by pat_completeness auto
termination
  by (relation "measure length") (auto simp: BUFFER_SIZE_def)

declare send_file.simps [simp del]

text \<open>
  Lines 71-92.  An exception of \<^verbatim>\<open>open\<close> at line 80 leaves the \<^verbatim>\<open>with\<close> block unentered
  and is answered by the handler of lines 112-115 with its text.
\<close>

definition do_upload ::
  "py_env \<Rightarrow> storage \<Rightarrow> ustr \<Rightarrow> int \<Rightarrow> bytes \<Rightarrow> conn \<Rightarrow> storage \<times> effect list" where
  "do_upload E fs filename filesize header_data s =
     (let header_end = nat (bytes_find header_data DELIM + 4);
          file_data = drop header_end header_data;
          remaining = filesize - int (length file_data)
      in if remaining < 0 then
           (fs, [SendJson ERROR (JStr (str ''File size smaller than received data''))])
         else (case open_wb_errno E filename of
                 Some errno \<Rightarrow>
                   (fs, [OpenWrite filename,
                         SendJson ERROR (JExc (OSError errno filename))])
               | None \<Rightarrow>
                   (case fs filename of
                      Some (Dir d) \<Rightarrow>
                        (fs, [OpenWrite filename,
                              SendJson ERROR (JExc (IsADirectoryError filename))])
                    | _ \<Rightarrow>
                        (case upload_loop remaining file_data s of
                           (remaining', written, s') \<Rightarrow>
                             (fs(filename \<mapsto> File written),
                              [OpenWrite filename,
                               if remaining' > 0 then
                                 SendJson ERROR (JStr (str ''Incomplete file received''))
                               else SendJson OK (JStr (str ''Uploaded '' @ filename))])))))"

text \<open>Lines 94-107.\<close>

definition do_get :: "storage \<Rightarrow> ustr \<Rightarrow> storage \<times> effect list" where
  "do_get fs filename =
     (case fs filename of
        None \<Rightarrow> (fs, [PathExists filename, SendJson ERROR (JStr (str ''File not found''))])
      | Some (File content) \<Rightarrow>
          (fs, [PathExists filename, GetSize filename,
                SendJson OK (JFileInfo filename (length content)), OpenRead filename]
               @ send_file content)
      | Some (Dir d) \<Rightarrow>
          (fs, [PathExists filename, GetSize filename,
                SendJson OK (JFileInfo filename d), OpenRead filename,
                SendJson ERROR (JExc (IsADirectoryError filename))]))"

text \<open>Lines 51-110: everything after the header has been read.\<close>

definition header_parts :: "bytes \<Rightarrow> ustr list" where
  "header_parts header_data = py_split (py_strip (decode_replace header_data))"

definition process_request ::
  "py_env \<Rightarrow> storage \<Rightarrow> bytes \<Rightarrow> conn \<Rightarrow> storage \<times> effect list" where
  "process_request E fs header_data s =
     (let parts = header_parts header_data
      in if length parts < 3 then
           (fs, [SendJson ERROR (JStr (str ''Invalid command format''))])
         else
           let command = py_upper E (parts ! 0);
               filename = parts ! 1
           in if \<not> is_valid_filename E filename then
                (fs, [SendJson ERROR (JStr (str ''Invalid filename''))])
              else (case py_int E (parts ! 2) of
                      None \<Rightarrow> (fs, [SendJson ERROR (JStr (str ''Invalid file size''))])
                    | Some filesize \<Rightarrow>
                        if command = str ''UPLOAD'' then
                          do_upload E fs filename filesize header_data s
                        else if command = str ''GET'' then do_get fs filename
                        else (fs, [SendJson ERROR (JStr (str ''Invalid command''))])))"

definition handle_client_raw :: "py_env \<Rightarrow> storage \<Rightarrow> conn \<Rightarrow> storage \<times> effect list" where
  "handle_client_raw E fs s =
     (case read_header [] s of
        None \<Rightarrow> (fs, [])
      | Some (header_data, s') \<Rightarrow> process_request E fs header_data s')"

section \<open>The client: the payload loop of \<^verbatim>\<open>send_command\<close>\<close>

text \<open>
  Lines 56-62 of the client: \<^verbatim>\<open>file_data\<close> starts as the bytes that
  \<^verbatim>\<open>recv_until\<close> read past the delimiter, and grows by whole \<^verbatim>\<open>recv(524288)\<close>
  results while it is shorter than \<^verbatim>\<open>filesize\<close>.
\<close>

function client_payload_loop :: "int \<Rightarrow> bytes \<Rightarrow> conn \<Rightarrow> bytes \<times> conn" where
  "client_payload_loop filesize file_data s =
     (if int (length file_data) < filesize then
        (case recv 524288 s of
           (more_data, s') \<Rightarrow>
             if more_data = [] then (file_data, s')
             else client_payload_loop filesize (file_data @ more_data) s')
      else (file_data, s))"
  by pat_completeness auto
termination
  by (relation "measure (\<lambda>(n, d, s). pending s)")
     (auto simp: recv_def pending_def split: list.splits if_splits)

declare client_payload_loop.simps [simp del]

section \<open>Observations on a run\<close>

text \<open>The responses of a run, and the raw bytes it sent after them.\<close>

fun responses :: "effect list \<Rightarrow> (status \<times> json) list" where
  "responses [] = []"
| "responses (SendJson st d # es) = (st, d) # responses es"
| "responses (e # es) = responses es"

fun payload :: "effect list \<Rightarrow> bytes" where
  "payload [] = []"
| "payload (SendAll b # es) = b @ payload es"
| "payload (e # es) = payload es"

text \<open>
  \<^verbatim>\<open>file_data\<close> of lines 72-73: the bytes of \<^verbatim>\<open>header_data\<close> past the first delimiter,
  read together with the header.
\<close>

definition leftover :: "bytes \<Rightarrow> bytes" where
  "leftover header_data = drop (nat (bytes_find header_data DELIM + 4)) header_data"

definition is_dir :: "storage \<Rightarrow> ustr \<Rightarrow> bool" where
  "is_dir fs name = (case fs name of Some (Dir d) \<Rightarrow> True | _ \<Rightarrow> False)"

text \<open>The destination opens for writing: \<^verbatim>\<open>open(filepath, 'wb')\<close> at line 80 returns.\<close>

definition opens_for_write :: "py_env \<Rightarrow> storage \<Rightarrow> ustr \<Rightarrow> bool" where
  "opens_for_write E fs name = (open_wb_errno E name = None \<and> \<not> is_dir fs name)"

text \<open>The calls of a run that open, create, truncate or inspect a path.\<close>

fun touches :: "effect list \<Rightarrow> ustr list" where
  "touches [] = []"
| "touches (PathExists p # es) = p # touches es"
| "touches (GetSize p # es) = p # touches es"
| "touches (OpenWrite p # es) = p # touches es"
| "touches (OpenRead p # es) = p # touches es"
| "touches (e # es) = touches es"

text \<open>
  Letter case on the wire, to speak about case variants of a command: the ASCII letters,
  the upper-case form of a byte, and a buffer or a stream with its first \<open>n\<close> bytes put
  in upper case (the division into chunks stays as it is).
\<close>

definition is_ascii_letter :: "char \<Rightarrow> bool" where
  "is_ascii_letter b =
     ((0x41 \<le> (of_char b :: nat) \<and> (of_char b :: nat) \<le> 0x5A) \<or>
      (0x61 \<le> (of_char b :: nat) \<and> (of_char b :: nat) \<le> 0x7A))"

definition ascii_upper :: "char \<Rightarrow> char" where
  "ascii_upper b =
     (if 0x61 \<le> (of_char b :: nat) \<and> (of_char b :: nat) \<le> 0x7A
      then char_of ((of_char b :: nat) - 0x20) else b)"

definition upper_first :: "nat \<Rightarrow> bytes \<Rightarrow> bytes" where
  "upper_first n buf = map ascii_upper (take n buf) @ drop n buf"

fun upper_first_conn :: "nat \<Rightarrow> conn \<Rightarrow> conn" where
  "upper_first_conn n [] = []"
| "upper_first_conn n (c # cs) = upper_first n c # upper_first_conn (n - length c) cs"

text \<open>
  A concrete setting for the examples: an interpreter whose tables know no letter,
  digit or case mapping outside ASCII, a file system that refuses names of more than 255
  characters with error 36 (\<^verbatim>\<open>ENAMETOOLONG\<close>), and a storage directory that holds
  nothing but \<^verbatim>\<open>.\<close> and \<^verbatim>\<open>..\<close>.  The examples use ASCII headers only, on which the
  tables are never consulted.
\<close>

definition ascii_env :: py_env where
  "ascii_env =
     \<lparr>u_isalnum = (\<lambda>c. False), u_upper = (\<lambda>c. [c]), u_decimal = (\<lambda>c. None),
      max_str_digits = 4300,
      open_wb_errno = (\<lambda>name. if 255 < length name then Some 36 else None)\<rparr>"

definition empty_storage :: storage where
  "empty_storage = [str ''.'' \<mapsto> Dir 4096, str ''..'' \<mapsto> Dir 4096]"

section \<open>Facts about the stream and the loops\<close>

lemma recv_concat: "recv n s = (chunk, s') \<Longrightarrow> concat s = chunk @ concat s'"
  by (auto simp: recv_def split: list.splits if_splits)

lemma recv_length: "recv n s = (chunk, s') \<Longrightarrow> length chunk \<le> n"
  by (auto simp: recv_def split: list.splits if_splits)

lemma recv_live:
  "[] \<notin> set s \<Longrightarrow> s \<noteq> [] \<Longrightarrow> 0 < n \<Longrightarrow> recv n s = (chunk, s') \<Longrightarrow>
   chunk \<noteq> [] \<and> [] \<notin> set s'"
  by (auto simp: recv_def split: list.splits if_splits)

lemma read_header_Some:
  "read_header h s = Some (hdr, s') \<Longrightarrow>
   bytes_in DELIM hdr \<and> (\<exists>taken. hdr = h @ taken \<and> concat s = taken @ concat s')"
proof (induction h s rule: read_header.induct)
  case (1 header_data s)
  show ?case
  proof (cases "bytes_in DELIM header_data")
    case True
    with "1.prems" show ?thesis by (simp add: read_header.simps[of header_data s])
  next
    case False
    obtain chunk s1 where R: "recv BUFFER_SIZE s = (chunk, s1)"
      by (cases "recv BUFFER_SIZE s")
    from False R "1.prems" have C: "chunk \<noteq> []"
      by (auto simp: read_header.simps[of header_data s] split: if_splits)
    with False R "1.prems" have "read_header (header_data @ chunk) s1 = Some (hdr, s')"
      by (simp add: read_header.simps[of header_data s])
    from "1.IH"[OF False R[symmetric] C this] recv_concat[OF R] show ?thesis by auto
  qed
qed

lemma upload_loop_takes:
  "upload_loop r w s = (r', w', s') \<Longrightarrow>
     \<exists>taken. w' = w @ taken \<and> concat s = taken @ concat s' \<and> r' = r - int (length taken) \<and>
       (0 \<le> r \<longrightarrow> 0 \<le> r')"
proof (induction r w s arbitrary: r' w' s' rule: upload_loop.induct)
  case (1 remaining written s)
  show ?case
  proof (cases "remaining > 0")
    case False
    with "1.prems" show ?thesis by (simp add: upload_loop.simps[of remaining written s])
  next
    case True
    obtain chunk s1 where R: "recv (min BUFFER_SIZE (nat remaining)) s = (chunk, s1)"
      by (cases "recv (min BUFFER_SIZE (nat remaining)) s")
    show ?thesis
    proof (cases "chunk = []")
      case True
      with \<open>remaining > 0\<close> R "1.prems" recv_concat[OF R] show ?thesis
        by (simp add: upload_loop.simps[of remaining written s])
    next
      case False
      from \<open>remaining > 0\<close> R False "1.prems"
      have L: "upload_loop (remaining - int (length chunk)) (written @ chunk) s1 = (r', w', s')"
        by (simp add: upload_loop.simps[of remaining written s])
      from "1.IH"[OF True R[symmetric] False L]
      obtain taken where T: "w' = (written @ chunk) @ taken" "concat s1 = taken @ concat s'"
        "r' = remaining - int (length chunk) - int (length taken)"
        "0 \<le> remaining - int (length chunk) \<longrightarrow> 0 \<le> r'" by blast
      have "length chunk \<le> nat remaining" using recv_length[OF R] by simp
      with T recv_concat[OF R] True show ?thesis
        by (intro exI[of _ "chunk @ taken"]) auto
    qed
  qed
qed

lemma upload_loop_complete:
  "[] \<notin> set s \<Longrightarrow> 0 \<le> r \<Longrightarrow> r \<le> int (length (concat s)) \<Longrightarrow> fst (upload_loop r w s) = 0"
proof (induction r w s rule: upload_loop.induct)
  case (1 remaining written s)
  show ?case
  proof (cases "remaining > 0")
    case False
    with "1.prems" show ?thesis by (subst upload_loop.simps) simp
  next
    case True
    obtain chunk s1 where R: "recv (min BUFFER_SIZE (nat remaining)) s = (chunk, s1)"
      by (cases "recv (min BUFFER_SIZE (nat remaining)) s")
    from True "1.prems" have "s \<noteq> []" by auto
    with recv_live[OF "1.prems"(1) _ _ R] True have C: "chunk \<noteq> []" "[] \<notin> set s1"
      by (auto simp: BUFFER_SIZE_def)
    have len: "length chunk \<le> nat remaining" using recv_length[OF R] by simp
    have "fst (upload_loop (remaining - int (length chunk)) (written @ chunk) s1) = 0"
      using "1.IH"[OF True R[symmetric] C(1) C(2)] len "1.prems" recv_concat[OF R] by simp
    with True R C show ?thesis by (simp add: upload_loop.simps[of remaining written s])
  qed
qed

lemma client_loop_takes:
  "client_payload_loop n d s = (d', s') \<Longrightarrow>
     \<exists>got. d' = d @ got \<and> concat s = got @ concat s' \<and> (n \<le> int (length d) \<longrightarrow> got = []) \<and>
       (got \<noteq> [] \<longrightarrow> int (length d') < n + 524288)"
proof (induction n d s arbitrary: d' s' rule: client_payload_loop.induct)
  case (1 filesize file_data s)
  show ?case
  proof (cases "int (length file_data) < filesize")
    case False
    with "1.prems" show ?thesis
      by (simp add: client_payload_loop.simps[of filesize file_data s])
  next
    case True
    obtain more s1 where R: "recv 524288 s = (more, s1)" by (cases "recv 524288 s")
    show ?thesis
    proof (cases "more = []")
      case True
      with \<open>int (length file_data) < filesize\<close> R "1.prems" recv_concat[OF R] show ?thesis
        by (simp add: client_payload_loop.simps[of filesize file_data s])
    next
      case False
      from True R False "1.prems"
      have L: "client_payload_loop filesize (file_data @ more) s1 = (d', s')"
        by (simp add: client_payload_loop.simps[of filesize file_data s])
      from "1.IH"[OF True R[symmetric] False L]
      obtain got where G: "d' = (file_data @ more) @ got" "concat s1 = got @ concat s'"
        "filesize \<le> int (length (file_data @ more)) \<longrightarrow> got = []"
        "got \<noteq> [] \<longrightarrow> int (length d') < filesize + 524288" by blast
      have "length more \<le> 524288" using recv_length[OF R] .
      with G recv_concat[OF R] True show ?thesis
        by (intro exI[of _ "more @ got"]) (cases "got = []"; auto)
    qed
  qed
qed

lemma payload_send_file: "payload (send_file content) = content"
proof (induction content rule: send_file.induct)
  case (1 content)
  show ?case
  proof (cases "take BUFFER_SIZE content = []")
    case True
    then have "content = []" by (auto simp: BUFFER_SIZE_def)
    then show ?thesis by (subst send_file.simps) simp
  next
    case False
    have "payload (send_file content) =
            take BUFFER_SIZE content @ payload (send_file (drop BUFFER_SIZE content))"
      using False by (subst send_file.simps) (simp add: Let_def)
    with "1.IH"[OF refl False] show ?thesis by simp
  qed
qed

lemma responses_send_file: "responses (send_file content) = []"
proof (induction content rule: send_file.induct)
  case (1 content)
  show ?case
  proof (cases "take BUFFER_SIZE content = []")
    case True
    then show ?thesis by (subst send_file.simps) simp
  next
    case False
    with "1.IH"[OF refl False] show ?thesis
      by (subst send_file.simps) (simp add: Let_def)
  qed
qed

section \<open>Facts about the header text\<close>

lemma split_acc_tokens:
  "list_all (\<lambda>x. \<not> isspace x) cur \<Longrightarrow> t \<in> set (split_acc cur cs) \<Longrightarrow>
   list_all (\<lambda>x. \<not> isspace x) t"
proof (induction cur cs rule: split_acc.induct)
  case (1 cur)
  then show ?case by (simp split: if_splits)
next
  case (2 cur c cs)
  show ?case
  proof (cases "isspace c")
    case False
    with 2 show ?thesis by simp
  next
    case True
    show ?thesis
    proof (cases "cur = []")
      case True
      with \<open>isspace c\<close> 2 show ?thesis by simp
    next
      case False
      with \<open>isspace c\<close> "2.prems" have "t = cur \<or> t \<in> set (split_acc [] cs)" by simp
      then show ?thesis
      proof
        assume "t = cur" with "2.prems" show ?thesis by simp
      next
        assume "t \<in> set (split_acc [] cs)"
        with "2.IH"(2)[OF \<open>isspace c\<close> False] show ?thesis by simp
      qed
    qed
  qed
qed

lemma header_parts_tokens:
  "t \<in> set (header_parts hdr) \<Longrightarrow> list_all (\<lambda>x. \<not> isspace x) t"
  unfolding header_parts_def py_split_def by (rule split_acc_tokens[of "[]"]) simp_all

lemma isspace_newline: "isspace 0x0A"
  by (simp add: isspace_def)

lemma token_no_newline: "t \<in> set (header_parts hdr) \<Longrightarrow> 0x0A \<notin> set t"
  using header_parts_tokens[of t hdr] isspace_newline by (auto simp: list_all_iff)

lemma valid_filename_token:
  "0x0A \<notin> set f \<Longrightarrow> is_valid_filename E f = (f \<noteq> [] \<and> list_all (name_char E) f)"
  by (cases f rule: rev_cases) (simp_all add: is_valid_filename_def Let_def)

lemma slash_not_name_char: "\<not> name_char E 0x2F"
  by (simp add: name_char_def py_isalnum_def)

section \<open>Facts about the handler\<close>

lemma process_request_parts:
  "header_parts hdr = c # f # z # rest \<Longrightarrow>
   process_request E fs hdr s =
     (if \<not> is_valid_filename E f then
        (fs, [SendJson ERROR (JStr (str ''Invalid filename''))])
      else (case py_int E z of
              None \<Rightarrow> (fs, [SendJson ERROR (JStr (str ''Invalid file size''))])
            | Some filesize \<Rightarrow>
                if py_upper E c = str ''UPLOAD'' then do_upload E fs f filesize hdr s
                else if py_upper E c = str ''GET'' then do_get fs f
                else (fs, [SendJson ERROR (JStr (str ''Invalid command''))])))"
  by (simp add: process_request_def Let_def)

lemma GET_not_UPLOAD: "str ''GET'' \<noteq> str ''UPLOAD''"
  by (simp add: str_def)

lemma do_upload_mismatch:
  "filesize < int (length (leftover hdr)) \<Longrightarrow>
   do_upload E fs f filesize hdr s =
     (fs, [SendJson ERROR (JStr (str ''File size smaller than received data''))])"
  by (simp add: do_upload_def leftover_def Let_def)

lemma do_upload_refused:
  "int (length (leftover hdr)) \<le> filesize \<Longrightarrow> \<not> opens_for_write E fs f \<Longrightarrow>
   \<exists>e. do_upload E fs f filesize hdr s = (fs, [OpenWrite f, SendJson ERROR (JExc e)])"
  by (auto simp: do_upload_def leftover_def Let_def is_dir_def opens_for_write_def
      split: option.splits entry.splits)

lemma do_upload_file:
  "int (length (leftover hdr)) \<le> filesize \<Longrightarrow> opens_for_write E fs f \<Longrightarrow>
   do_upload E fs f filesize hdr s =
     (case upload_loop (filesize - int (length (leftover hdr))) (leftover hdr) s of
        (remaining', written, s') \<Rightarrow>
          (fs(f \<mapsto> File written),
           [OpenWrite f,
            if remaining' > 0 then SendJson ERROR (JStr (str ''Incomplete file received''))
            else SendJson OK (JStr (str ''Uploaded '' @ f))]))"
  by (auto simp: do_upload_def leftover_def Let_def is_dir_def opens_for_write_def
      split: option.splits entry.splits)

lemmas text_eval = header_parts_def DELIM_def decode_replace_def py_strip_def py_split_def
  isspace_def str_def py_upper_def upper_char_def is_valid_filename_def name_char_def
  py_isalnum_def py_int_def digit_val_def digits_value_def is_cont_def valid_second_def
  REPLACEMENT_def Let_def

lemmas run_eval = bytes_in_def bytes_find_def recv_def BUFFER_SIZE_def process_request_def
  handle_client_raw_def do_upload_def do_get_def ascii_env_def empty_storage_def
  leftover_def is_dir_def opens_for_write_def
  read_header.simps upload_loop.simps send_file.simps client_payload_loop.simps

section \<open>The claims\<close>

text \<open>
  In the statements below a connection \<open>s\<close> carries a request when the header loop
  returns (\<open>read_header [] s = Some (hdr, s')\<close>: \<open>hdr\<close> is \<^verbatim>\<open>header_data\<close>, \<open>s'\<close> the
  unread rest of the stream) and the buffer splits into at least three tokens, the
  command \<open>c\<close>, the file name \<open>f\<close> and the size \<open>z\<close>.
\<close>

text \<open>
  Claim C3.  An UPLOAD whose buffer already holds more bytes past the delimiter than the
  declared size is answered with the size-mismatch error and nothing else happens: the
  run consists of that one response, so the destination is never opened, and the storage
  is returned as it was.
\<close>

theorem upload_size_mismatch:
  assumes "read_header [] s = Some (hdr, s')"
    and "header_parts hdr = c # f # z # rest"
    and "py_upper E c = str ''UPLOAD''"
    and "is_valid_filename E f"
    and "py_int E z = Some filesize"
    and "filesize < int (length (leftover hdr))"
  shows "handle_client_raw E fs s =
           (fs, [SendJson ERROR (JStr (str ''File size smaller than received data''))])"
  using assms by (simp add: handle_client_raw_def process_request_parts do_upload_mismatch)

theorem upload_size_mismatch_witness:
  "read_header [] [''UPLOAD a.txt 2'' @ DELIM @ ''abc''] =
     Some (''UPLOAD a.txt 2'' @ DELIM @ ''abc'', []) \<and>
   header_parts (''UPLOAD a.txt 2'' @ DELIM @ ''abc'') =
     [str ''UPLOAD'', str ''a.txt'', str ''2'', str ''abc''] \<and>
   leftover (''UPLOAD a.txt 2'' @ DELIM @ ''abc'') = ''abc'' \<and>
   handle_client_raw ascii_env (empty_storage(str ''a.txt'' \<mapsto> File ''old''))
       [''UPLOAD a.txt 2'' @ DELIM @ ''abc''] =
     (empty_storage(str ''a.txt'' \<mapsto> File ''old''),
      [SendJson ERROR (JStr (str ''File size smaller than received data''))])"
proof -
  have h: "read_header [] [''UPLOAD a.txt 2'' @ DELIM @ ''abc''] =
     Some (''UPLOAD a.txt 2'' @ DELIM @ ''abc'', [])"
    by (simp add: text_eval run_eval)
  have p: "header_parts (''UPLOAD a.txt 2'' @ DELIM @ ''abc'') =
     [str ''UPLOAD'', str ''a.txt'', str ''2'', str ''abc'']"
    by (simp add: text_eval)
  have l: "leftover (''UPLOAD a.txt 2'' @ DELIM @ ''abc'') = ''abc''"
    by (simp add: text_eval run_eval)
  have u: "py_upper ascii_env (str ''UPLOAD'') = str ''UPLOAD''"
    by (simp add: text_eval)
  have v: "is_valid_filename ascii_env (str ''a.txt'')"
    by (simp add: text_eval)
  have i: "py_int ascii_env (str ''2'') = Some 2"
    by (simp add: text_eval ascii_env_def)
  have "(2::int) < int (length (leftover (''UPLOAD a.txt 2'' @ DELIM @ ''abc'')))"
    unfolding l by simp
  from upload_size_mismatch[OF h p u v i this] h p l show ?thesis by simp
qed


text \<open>
  Claim C10.  An UPLOAD whose size token parses as a negative integer always gets the
  size-mismatch error, and the run opens, creates and truncates nothing: its only effect
  is the response.
\<close>

theorem upload_negative_size:
  assumes "read_header [] s = Some (hdr, s')"
    and "header_parts hdr = c # f # z # rest"
    and "py_upper E c = str ''UPLOAD''"
    and "is_valid_filename E f"
    and "py_int E z = Some filesize"
    and "filesize < 0"
  shows "handle_client_raw E fs s =
           (fs, [SendJson ERROR (JStr (str ''File size smaller than received data''))])"
proof -
  from \<open>filesize < 0\<close> have "filesize < int (length (leftover hdr))" by simp
  with assms show ?thesis
    by (simp add: handle_client_raw_def process_request_parts do_upload_mismatch)
qed

theorem upload_negative_size_witness:
  "read_header [] [''UPLOAD a.txt -5'' @ DELIM] = Some (''UPLOAD a.txt -5'' @ DELIM, []) \<and>
   header_parts (''UPLOAD a.txt -5'' @ DELIM) = [str ''UPLOAD'', str ''a.txt'', str ''-5''] \<and>
   py_int ascii_env (str ''-5'') = Some (- 5) \<and>
   handle_client_raw ascii_env (empty_storage(str ''a.txt'' \<mapsto> File ''old''))
       [''UPLOAD a.txt -5'' @ DELIM] =
     (empty_storage(str ''a.txt'' \<mapsto> File ''old''),
      [SendJson ERROR (JStr (str ''File size smaller than received data''))])"
proof -
  have h: "read_header [] [''UPLOAD a.txt -5'' @ DELIM] = Some (''UPLOAD a.txt -5'' @ DELIM, [])"
    by (simp add: text_eval run_eval)
  have p: "header_parts (''UPLOAD a.txt -5'' @ DELIM) =
     [str ''UPLOAD'', str ''a.txt'', str ''-5'']"
    by (simp add: text_eval)
  have u: "py_upper ascii_env (str ''UPLOAD'') = str ''UPLOAD''"
    by (simp add: text_eval)
  have v: "is_valid_filename ascii_env (str ''a.txt'')"
    by (simp add: text_eval)
  have i: "py_int ascii_env (str ''-5'') = Some (- 5)"
    by (simp add: text_eval ascii_env_def)
  have n: "(- 5 :: int) < 0" by simp
  from upload_negative_size[OF h p u v i n] h p i show ?thesis by simp
qed

text \<open>
  Claim C8.  A GET for a name that the storage directory does not hold is answered with
  the single response \<^verbatim>\<open>{"status": "ERROR", "data": "File not found"}\<close>; no payload
  byte is sent and the storage is unchanged.
\<close>

theorem get_missing_file:
  assumes "read_header [] s = Some (hdr, s')"
    and "header_parts hdr = c # f # z # rest"
    and "py_upper E c = str ''GET''"
    and "is_valid_filename E f"
    and "py_int E z = Some n"
    and "fs f = None"
  shows "handle_client_raw E fs s =
           (fs, [PathExists f, SendJson ERROR (JStr (str ''File not found''))]) \<and>
         responses (snd (handle_client_raw E fs s)) = [(ERROR, JStr (str ''File not found''))] \<and>
         payload (snd (handle_client_raw E fs s)) = []"
  using assms
  by (simp add: handle_client_raw_def process_request_parts GET_not_UPLOAD do_get_def)

theorem get_missing_file_witness:
  "read_header [] [''GET nofile.txt 0'' @ DELIM] = Some (''GET nofile.txt 0'' @ DELIM, []) \<and>
   header_parts (''GET nofile.txt 0'' @ DELIM) = [str ''GET'', str ''nofile.txt'', str ''0''] \<and>
   empty_storage (str ''nofile.txt'') = None \<and>
   responses (snd (handle_client_raw ascii_env empty_storage [''GET nofile.txt 0'' @ DELIM])) =
     [(ERROR, JStr (str ''File not found''))] \<and>
   payload (snd (handle_client_raw ascii_env empty_storage [''GET nofile.txt 0'' @ DELIM])) = []"
proof -
  have h: "read_header [] [''GET nofile.txt 0'' @ DELIM] = Some (''GET nofile.txt 0'' @ DELIM, [])"
    by (simp add: text_eval run_eval)
  have p: "header_parts (''GET nofile.txt 0'' @ DELIM) =
     [str ''GET'', str ''nofile.txt'', str ''0'']"
    by (simp add: text_eval)
  have u: "py_upper ascii_env (str ''GET'') = str ''GET''"
    by (simp add: text_eval)
  have v: "is_valid_filename ascii_env (str ''nofile.txt'')"
    by (simp add: text_eval)
  have i: "py_int ascii_env (str ''0'') = Some 0"
    by (simp add: text_eval ascii_env_def)
  have e: "empty_storage (str ''nofile.txt'') = None"
    by (simp add: empty_storage_def str_def)
  from get_missing_file[where fs = empty_storage, OF h p u v i e] h p e show ?thesis by simp
qed

text \<open>
  Claim C4.  An UPLOAD that declares \<open>S\<close> bytes on a stream that closes after \<open>S - k\<close>
  payload bytes (\<open>k > 0\<close>; the bytes read with the header count) gets exactly one response,
  and its status is ERROR, never OK, whatever the destination is.  When the destination
  opens for writing, the text of the response is \<^verbatim>\<open>Incomplete file received\<close>.  (When
  it does not, \<^verbatim>\<open>open\<close> has raised and the text is that of the exception.)
\<close>

theorem upload_short_stream:
  assumes "read_header [] s = Some (hdr, s')"
    and "header_parts hdr = c # f # z # rest"
    and "py_upper E c = str ''UPLOAD''"
    and "is_valid_filename E f"
    and "py_int E z = Some S"
    and "int (length (leftover hdr) + length (concat s')) = S - k"
    and "0 < k"
  shows "\<exists>d. responses (snd (handle_client_raw E fs s)) = [(ERROR, d)] \<and>
           (opens_for_write E fs f \<longrightarrow> d = JStr (str ''Incomplete file received''))"
proof -
  from assms(6,7) have le: "int (length (leftover hdr)) \<le> S" by simp
  have run: "handle_client_raw E fs s = do_upload E fs f S hdr s'"
    using assms by (simp add: handle_client_raw_def process_request_parts)
  show ?thesis
  proof (cases "opens_for_write E fs f")
    case False
    from do_upload_refused[OF le False, of s'] obtain e where
      "do_upload E fs f S hdr s' = (fs, [OpenWrite f, SendJson ERROR (JExc e)])" by blast
    with False run show ?thesis by simp
  next
    case True
    obtain r' w' s'' where L:
      "upload_loop (S - int (length (leftover hdr))) (leftover hdr) s' = (r', w', s'')"
      by (cases "upload_loop (S - int (length (leftover hdr))) (leftover hdr) s'")
    from upload_loop_takes[OF L] obtain taken where
      T: "concat s' = taken @ concat s''" "r' = S - int (length (leftover hdr)) - int (length taken)"
      by blast
    from T(1) have "length taken \<le> length (concat s')"
      by (metis length_append le_add1)
    with T(2) assms(6,7) have "0 < r'" by simp
    with True le run L show ?thesis by (simp add: do_upload_file)
  qed
qed

theorem upload_short_stream_witness:
  "read_header [] [''UPLOAD a.txt 5'' @ DELIM @ ''ab'', ''c''] =
     Some (''UPLOAD a.txt 5'' @ DELIM @ ''ab'', [''c'']) \<and>
   header_parts (''UPLOAD a.txt 5'' @ DELIM @ ''ab'') =
     [str ''UPLOAD'', str ''a.txt'', str ''5'', str ''ab''] \<and>
   leftover (''UPLOAD a.txt 5'' @ DELIM @ ''ab'') = ''ab'' \<and>
   opens_for_write ascii_env empty_storage (str ''a.txt'') \<and>
   responses (snd (handle_client_raw ascii_env empty_storage
       [''UPLOAD a.txt 5'' @ DELIM @ ''ab'', ''c''])) =
     [(ERROR, JStr (str ''Incomplete file received''))]"
proof -
  have h: "read_header [] [''UPLOAD a.txt 5'' @ DELIM @ ''ab'', ''c''] =
     Some (''UPLOAD a.txt 5'' @ DELIM @ ''ab'', [''c''])"
    by (simp add: text_eval run_eval)
  have p: "header_parts (''UPLOAD a.txt 5'' @ DELIM @ ''ab'') =
     [str ''UPLOAD'', str ''a.txt'', str ''5'', str ''ab'']"
    by (simp add: text_eval)
  have l: "leftover (''UPLOAD a.txt 5'' @ DELIM @ ''ab'') = ''ab''"
    by (simp add: text_eval run_eval)
  have u: "py_upper ascii_env (str ''UPLOAD'') = str ''UPLOAD''"
    by (simp add: text_eval)
  have v: "is_valid_filename ascii_env (str ''a.txt'')"
    by (simp add: text_eval)
  have i: "py_int ascii_env (str ''5'') = Some 5"
    by (simp add: text_eval ascii_env_def)
  have k: "int (length (leftover (''UPLOAD a.txt 5'' @ DELIM @ ''ab'')) + length (concat [''c''])) = 5 - 2"
    unfolding l by simp
  have d: "opens_for_write ascii_env empty_storage (str ''a.txt'')"
    by (simp add: opens_for_write_def is_dir_def empty_storage_def ascii_env_def str_def)
  have k0: "(0::int) < 2" by simp
  from upload_short_stream[OF h p u v i k k0, of empty_storage] d
  have "responses (snd (handle_client_raw ascii_env empty_storage
       [''UPLOAD a.txt 5'' @ DELIM @ ''ab'', ''c''])) =
     [(ERROR, JStr (str ''Incomplete file received''))]"
    by auto
  with h p l d show ?thesis by blast
qed

text \<open>
  Claim C2, as amended.  A request whose file-name token contains \<^verbatim>\<open>/\<close>, or any other
  character outside \<^verbatim>\<open>[\w\-.]\<close>, is answered with \<^verbatim>\<open>Invalid filename\<close>; that response
  is the whole run, so no path is inspected, opened, created or truncated, and the storage
  is unchanged.  (A name is not rejected for containing \<^verbatim>\<open>..\<close>: the dot belongs to the
  class.)
\<close>

theorem invalid_filename_rejected:
  assumes "read_header [] s = Some (hdr, s')"
    and "header_parts hdr = c # f # z # rest"
    and "0x2F \<in> set f \<or> \<not> list_all (name_char E) f"
  shows "handle_client_raw E fs s = (fs, [SendJson ERROR (JStr (str ''Invalid filename''))]) \<and>
         touches (snd (handle_client_raw E fs s)) = []"
proof -
  from assms(2) have "f \<in> set (header_parts hdr)" by simp
  then have nl: "0x0A \<notin> set f" by (rule token_no_newline)
  from assms(3) have "\<not> list_all (name_char E) f"
    using slash_not_name_char[of E] by (auto simp: list_all_iff)
  with nl have "\<not> is_valid_filename E f" by (simp add: valid_filename_token)
  with assms(1,2) show ?thesis
    by (simp add: handle_client_raw_def process_request_parts)
qed

theorem invalid_filename_rejected_witness:
  "read_header [] [''UPLOAD ../x.txt 3'' @ DELIM @ ''abc''] =
     Some (''UPLOAD ../x.txt 3'' @ DELIM @ ''abc'', []) \<and>
   header_parts (''UPLOAD ../x.txt 3'' @ DELIM @ ''abc'') =
     [str ''UPLOAD'', str ''../x.txt'', str ''3'', str ''abc''] \<and>
   0x2F \<in> set (str ''../x.txt'') \<and>
   handle_client_raw ascii_env empty_storage [''UPLOAD ../x.txt 3'' @ DELIM @ ''abc''] =
     (empty_storage, [SendJson ERROR (JStr (str ''Invalid filename''))])"
proof -
  have h: "read_header [] [''UPLOAD ../x.txt 3'' @ DELIM @ ''abc''] =
     Some (''UPLOAD ../x.txt 3'' @ DELIM @ ''abc'', [])"
    by (simp add: text_eval run_eval)
  have p: "header_parts (''UPLOAD ../x.txt 3'' @ DELIM @ ''abc'') =
     [str ''UPLOAD'', str ''../x.txt'', str ''3'', str ''abc'']"
    by (simp add: text_eval)
  have m: "0x2F \<in> set (str ''../x.txt'')"
    by (simp add: str_def)
  then have d: "0x2F \<in> set (str ''../x.txt'') \<or> \<not> list_all (name_char ascii_env) (str ''../x.txt'')"
    by (rule disjI1)
  from invalid_filename_rejected[OF h p d, of empty_storage] h p m show ?thesis by simp
qed

theorem dotdot_filename_accepted:
  "handle_client_raw ascii_env empty_storage [''UPLOAD a..b 3'' @ DELIM @ ''abc''] =
     (empty_storage(str ''a..b'' \<mapsto> File ''abc''),
      [OpenWrite (str ''a..b''), SendJson OK (JStr (str ''Uploaded a..b''))])"
  by (simp add: text_eval run_eval)

text \<open>
  Claim C7, as amended.  Two GET requests for the same file name whose size tokens both
  parse as integers get the same run, whatever the two integers are; when the name is
  valid and the storage holds a file under it, the one response is OK and reports the
  length of the stored content.  (A size token that is not an integer is answered with
  \<^verbatim>\<open>Invalid file size\<close> before the command is looked at.)
\<close>

theorem get_ignores_numeric_size:
  assumes "read_header [] s1 = Some (hdr1, r1)"
    and "header_parts hdr1 = c1 # f # z1 # rest1"
    and "py_upper E c1 = str ''GET''"
    and "py_int E z1 = Some n1"
    and "read_header [] s2 = Some (hdr2, r2)"
    and "header_parts hdr2 = c2 # f # z2 # rest2"
    and "py_upper E c2 = str ''GET''"
    and "py_int E z2 = Some n2"
  shows "handle_client_raw E fs s1 = handle_client_raw E fs s2 \<and>
         (is_valid_filename E f \<longrightarrow>
            (\<forall>content. fs f = Some (File content) \<longrightarrow>
               responses (snd (handle_client_raw E fs s1)) =
                 [(OK, JFileInfo f (length content))]))"
  using assms
  by (simp add: handle_client_raw_def process_request_parts GET_not_UPLOAD do_get_def
      responses_send_file)

theorem get_ignores_numeric_size_witness:
  "header_parts (''GET a.txt 0'' @ DELIM) = [str ''GET'', str ''a.txt'', str ''0''] \<and>
   header_parts (''GET a.txt 999'' @ DELIM) = [str ''GET'', str ''a.txt'', str ''999''] \<and>
   handle_client_raw ascii_env (empty_storage(str ''a.txt'' \<mapsto> File ''hello''))
       [''GET a.txt 0'' @ DELIM] =
   handle_client_raw ascii_env (empty_storage(str ''a.txt'' \<mapsto> File ''hello''))
       [''GET a.txt 999'' @ DELIM] \<and>
   responses (snd (handle_client_raw ascii_env (empty_storage(str ''a.txt'' \<mapsto> File ''hello''))
       [''GET a.txt 0'' @ DELIM])) = [(OK, JFileInfo (str ''a.txt'') (length ''hello''))]"
proof -
  have h1: "read_header [] [''GET a.txt 0'' @ DELIM] = Some (''GET a.txt 0'' @ DELIM, [])"
    by (simp add: text_eval run_eval)
  have p1: "header_parts (''GET a.txt 0'' @ DELIM) = [str ''GET'', str ''a.txt'', str ''0'']"
    by (simp add: text_eval)
  have h2: "read_header [] [''GET a.txt 999'' @ DELIM] = Some (''GET a.txt 999'' @ DELIM, [])"
    by (simp add: text_eval run_eval)
  have p2: "header_parts (''GET a.txt 999'' @ DELIM) =
     [str ''GET'', str ''a.txt'', str ''999'']"
    by (simp add: text_eval)
  have u: "py_upper ascii_env (str ''GET'') = str ''GET''"
    by (simp add: text_eval)
  have v: "is_valid_filename ascii_env (str ''a.txt'')"
    by (simp add: text_eval)
  have i1: "py_int ascii_env (str ''0'') = Some 0"
    by (simp add: text_eval ascii_env_def)
  have i2: "py_int ascii_env (str ''999'') = Some 999"
    by (simp add: text_eval ascii_env_def)
  have e: "(empty_storage(str ''a.txt'' \<mapsto> File ''hello'')) (str ''a.txt'') = Some (File ''hello'')"
    by simp
  note T = get_ignores_numeric_size[OF h1 p1 u i1 h2 p2 u i2,
      of "empty_storage(str ''a.txt'' \<mapsto> File ''hello'')"]
  from T have A: "handle_client_raw ascii_env (empty_storage(str ''a.txt'' \<mapsto> File ''hello''))
       [''GET a.txt 0'' @ DELIM] =
     handle_client_raw ascii_env (empty_storage(str ''a.txt'' \<mapsto> File ''hello''))
       [''GET a.txt 999'' @ DELIM]"
    by (rule conjunct1)
  from T v e have C: "responses (snd (handle_client_raw ascii_env
       (empty_storage(str ''a.txt'' \<mapsto> File ''hello'')) [''GET a.txt 0'' @ DELIM])) =
     [(OK, JFileInfo (str ''a.txt'') (length ''hello''))]"
    by blast
  from p1 p2 A C show ?thesis by blast
qed

theorem get_size_token_not_ignored:
  "snd (handle_client_raw ascii_env empty_storage [''GET a.txt 0'' @ DELIM]) =
     [PathExists (str ''a.txt''), SendJson ERROR (JStr (str ''File not found''))] \<and>
   snd (handle_client_raw ascii_env empty_storage [''GET a.txt abc'' @ DELIM]) =
     [SendJson ERROR (JStr (str ''Invalid file size''))]"
  by (simp add: text_eval run_eval)

text \<open>
  Claim C5 does not hold of the code.  The header text that is split into tokens is the
  whole buffer, the bytes past the delimiter included: a header of two tokens followed in
  the same buffer by the byte \<^verbatim>\<open>5\<close> is taken for an UPLOAD of five bytes, the file is
  created with the content \<^verbatim>\<open>5\<close>, and the answer is \<^verbatim>\<open>Incomplete file received\<close>,
  not the malformed-request error.
\<close>

theorem short_header_completed_by_payload:
  "header_parts (''UPLOAD a.txt'' @ DELIM @ ''5'') = [str ''UPLOAD'', str ''a.txt'', str ''5''] \<and>
   handle_client_raw ascii_env empty_storage [''UPLOAD a.txt'' @ DELIM @ ''5''] =
     (empty_storage(str ''a.txt'' \<mapsto> File ''5''),
      [OpenWrite (str ''a.txt''), SendJson ERROR (JStr (str ''Incomplete file received''))])"
  by (simp add: text_eval run_eval)

text \<open>
  Claim C6, as amended.  The server's UPLOAD receive loop, entered with
  \<open>remaining \<ge> 0\<close>, takes a prefix of the stream of at most \<open>remaining\<close> bytes and leaves
  every later byte unread; it takes exactly \<open>remaining\<close> bytes when the stream delivers
  that many before it closes.  The client's payload loop also takes a prefix of the
  stream and reads nothing once it holds \<^verbatim>\<open>filesize\<close> bytes, but each of its reads asks
  for 524288 bytes whatever is still missing, so what it holds in the end may exceed
  \<^verbatim>\<open>filesize\<close>, by less than 524288 bytes.
\<close>

theorem payload_read_bounds:
  assumes "upload_loop remaining written s = (remaining', written', s')"
    and "0 \<le> remaining"
    and "client_payload_loop filesize file_data t = (file_data', t')"
  shows "(\<exists>taken. written' = written @ taken \<and> concat s = taken @ concat s' \<and>
            int (length taken) \<le> remaining \<and> remaining' = remaining - int (length taken) \<and>
            ([] \<notin> set s \<and> remaining \<le> int (length (concat s)) \<longrightarrow>
               int (length taken) = remaining)) \<and>
         (\<exists>got. file_data' = file_data @ got \<and> concat t = got @ concat t' \<and>
            (filesize \<le> int (length file_data) \<longrightarrow> got = []) \<and>
            (got \<noteq> [] \<longrightarrow> int (length file_data') < filesize + 524288))"
proof
  from upload_loop_takes[OF assms(1)] obtain taken where
    T: "written' = written @ taken" "concat s = taken @ concat s'"
       "remaining' = remaining - int (length taken)" "0 \<le> remaining \<longrightarrow> 0 \<le> remaining'"
    by blast
  from T(3,4) assms(2) have B: "int (length taken) \<le> remaining" by simp
  have "int (length taken) = remaining"
    if "[] \<notin> set s" "remaining \<le> int (length (concat s))"
  proof -
    from upload_loop_complete[OF that(1) assms(2) that(2), of written] assms(1)
    have "remaining' = 0" by simp
    with T(3) show ?thesis by simp
  qed
  with T B show "\<exists>taken. written' = written @ taken \<and> concat s = taken @ concat s' \<and>
            int (length taken) \<le> remaining \<and> remaining' = remaining - int (length taken) \<and>
            ([] \<notin> set s \<and> remaining \<le> int (length (concat s)) \<longrightarrow>
               int (length taken) = remaining)"
    by blast
next
  from client_loop_takes[OF assms(3)]
  show "\<exists>got. file_data' = file_data @ got \<and> concat t = got @ concat t' \<and>
            (filesize \<le> int (length file_data) \<longrightarrow> got = []) \<and>
            (got \<noteq> [] \<longrightarrow> int (length file_data') < filesize + 524288)" .
qed

theorem payload_read_bounds_witness:
  "upload_loop 2 [] [''abc'', ''de''] = (0, ''ab'', [''c'', ''de'']) \<and>
   client_payload_loop 2 [] [''a'', ''bcd'', ''e''] = (''abcd'', [''e'']) \<and>
   (\<exists>taken. ''ab'' = [] @ taken \<and> concat [''abc'', ''de''] = taken @ concat [''c'', ''de''] \<and>
      int (length taken) \<le> 2 \<and> (0::int) = 2 - int (length taken) \<and>
      ([] \<notin> set [''abc'', ''de''] \<and> 2 \<le> int (length (concat [''abc'', ''de''])) \<longrightarrow>
         int (length taken) = 2)) \<and>
   (\<exists>got. ''abcd'' = [] @ got \<and> concat [''a'', ''bcd'', ''e''] = got @ concat [''e''] \<and>
      (2 \<le> int (length ([]::char list)) \<longrightarrow> got = []) \<and>
      (got \<noteq> [] \<longrightarrow> int (length ''abcd'') < 2 + 524288))"
proof -
  have u: "upload_loop 2 [] [''abc'', ''de''] = (0, ''ab'', [''c'', ''de''])"
    by (simp add: run_eval)
  have c: "client_payload_loop 2 [] [''a'', ''bcd'', ''e''] = (''abcd'', [''e''])"
    by (simp add: run_eval)
  have z: "(0::int) \<le> 2" by simp
  from payload_read_bounds[OF u z c] u c show ?thesis by blast
qed

theorem client_loop_reads_past_filesize:
  "client_payload_loop 1 [] [''abc''] = (''abc'', [])"
  by (simp add: run_eval)

text \<open>
  The round trip, from what the two handler runs parse: an UPLOAD of \<open>length B\<close> bytes
  with payload \<open>B\<close> to a destination that opens, then a GET of the same name.
\<close>

lemma roundtrip_core:
  assumes "read_header [] s = Some (hdr, s')"
    and "header_parts hdr = c # f # z # rest"
    and "py_upper E c = str ''UPLOAD''"
    and "is_valid_filename E f"
    and "py_int E z = Some (int (length B))"
    and "leftover hdr @ concat s' = B"
    and "[] \<notin> set s'"
    and "opens_for_write E fs f"
    and "read_header [] g = Some (hdr2, g')"
    and "header_parts hdr2 = c2 # f # z2 # rest2"
    and "py_upper E c2 = str ''GET''"
    and "py_int E z2 = Some n"
    and "fsg f = fst (handle_client_raw E fs s) f"
  shows "handle_client_raw E fs s =
           (fs(f \<mapsto> File B), [OpenWrite f, SendJson OK (JStr (str ''Uploaded '' @ f))]) \<and>
         handle_client_raw E fsg g =
           (fsg, [PathExists f, GetSize f, SendJson OK (JFileInfo f (length B)), OpenRead f]
                 @ send_file B) \<and>
         responses (send_file B) = [] \<and> payload (send_file B) = B"
proof -
  let ?r = "int (length B) - int (length (leftover hdr))"
  from assms(6) have len: "length B = length (leftover hdr) + length (concat s')"
    by (metis length_append)
  then have le: "int (length (leftover hdr)) \<le> int (length B)" by simp
  obtain r' w' s'' where L: "upload_loop ?r (leftover hdr) s' = (r', w', s'')"
    by (cases "upload_loop ?r (leftover hdr) s'")
  from upload_loop_takes[OF L] obtain taken where
    T: "w' = leftover hdr @ taken" "concat s' = taken @ concat s''"
       "r' = ?r - int (length taken)"
    by blast
  from upload_loop_complete[OF assms(7), of ?r "leftover hdr"] len L have r0: "r' = 0"
    by simp
  with T(3) len have "length taken = length (concat s')" by simp
  with T(2) have "taken = concat s'" by (metis append_eq_append_conv append_Nil2)
  with T(1) assms(6) have w: "w' = B" by simp
  have up: "handle_client_raw E fs s =
      (fs(f \<mapsto> File B), [OpenWrite f, SendJson OK (JStr (str ''Uploaded '' @ f))])"
    using assms(1-5,8) le L r0 w
    by (simp add: handle_client_raw_def process_request_parts do_upload_file)
  with assms(13) have stored: "fsg f = Some (File B)" by simp
  have get: "handle_client_raw E fsg g =
      (fsg, [PathExists f, GetSize f, SendJson OK (JFileInfo f (length B)), OpenRead f]
            @ send_file B)"
    using assms(4,9-12) stored
    by (simp add: handle_client_raw_def process_request_parts GET_not_UPLOAD do_get_def)
  from up get show ?thesis
    by (simp add: responses_send_file payload_send_file)
qed

text \<open>The empty file, evaluated: nothing follows the response of the GET.\<close>

lemma empty_file_roundtrip:
  "handle_client_raw ascii_env empty_storage [''UPLOAD e.bin 0'' @ DELIM] =
     (empty_storage(str ''e.bin'' \<mapsto> File []),
      [OpenWrite (str ''e.bin''), SendJson OK (JStr (str ''Uploaded e.bin''))]) \<and>
   handle_client_raw ascii_env (empty_storage(str ''e.bin'' \<mapsto> File []))
       [''GET e.bin 0'' @ DELIM] =
     (empty_storage(str ''e.bin'' \<mapsto> File []),
      [PathExists (str ''e.bin''), GetSize (str ''e.bin''),
       SendJson OK (JFileInfo (str ''e.bin'') 0), OpenRead (str ''e.bin'')])"
  by (simp add: text_eval run_eval)

section \<open>Upper-casing the leading letters of a request\<close>

lemma letter_facts:
  assumes "is_ascii_letter b"
  shows "(of_char b :: nat) < 0x80" and "\<not> isspace (of_char b)" and "b \<noteq> CHR 0x0D"
    and "is_ascii_letter (ascii_upper b)"
    and "(of_char (ascii_upper b) :: nat) =
           (if 0x61 \<le> (of_char b :: nat) then of_char b - 0x20 else of_char b)"
proof -
  from assms show "(of_char b :: nat) < 0x80" by (auto simp: is_ascii_letter_def)
  from assms show "\<not> isspace (of_char b)" by (auto simp: is_ascii_letter_def isspace_def)
  from assms show "b \<noteq> CHR 0x0D" by (auto simp: is_ascii_letter_def)
  have m: "(of_char (char_of (n - 32 :: nat)) :: nat) = n - 32" if "n \<le> 122" for n
    using that by simp
  from assms m[of "of_char b"]
  show u: "(of_char (ascii_upper b) :: nat) =
           (if 0x61 \<le> (of_char b :: nat) then of_char b - 0x20 else of_char b)"
    by (auto simp: is_ascii_letter_def ascii_upper_def)
  from assms show "is_ascii_letter (ascii_upper b)"
    unfolding is_ascii_letter_def[of "ascii_upper b"] u
    by (auto simp: is_ascii_letter_def)
qed


lemma ascii_upper_idem: "is_ascii_letter b \<Longrightarrow> ascii_upper (ascii_upper b) = ascii_upper b"
  using letter_facts(5)[of b] unfolding ascii_upper_def[of "ascii_upper b"]
  by (auto simp: is_ascii_letter_def)

lemma utf8_replace_ascii:
  "list_all (\<lambda>b. b < 0x80) a \<Longrightarrow> utf8_replace (a @ t) = a @ utf8_replace t"
  by (induction a) simp_all

lemma decode_letters:
  "list_all is_ascii_letter cmd \<Longrightarrow>
   decode_replace (cmd @ rst) = map of_char cmd @ decode_replace rst"
  unfolding decode_replace_def map_append
  by (rule utf8_replace_ascii) (simp add: list_all_iff letter_facts(1))

lemma split_acc_prefix:
  "list_all (\<lambda>x. \<not> isspace x) c \<Longrightarrow> split_acc cur (c @ u) = split_acc (cur @ c) u"
  by (induction c arbitrary: cur) simp_all

lemma split_acc_cur:
  "cur \<noteq> [] \<Longrightarrow>
   split_acc cur u =
     (cur @ takeWhile (\<lambda>x. \<not> isspace x) u) # split_acc [] (dropWhile (\<lambda>x. \<not> isspace x) u)"
  by (induction u arbitrary: cur) simp_all

lemma strip_prefix:
  assumes "c \<noteq> []" and "list_all (\<lambda>x. \<not> isspace x) c"
  shows "py_strip (c @ t) = c @ rev (dropWhile isspace (rev t))"
proof -
  from assms have a: "dropWhile isspace (c @ t) = c @ t"
    by (cases c) simp_all
  from assms have b: "dropWhile isspace (rev c) = rev c"
    by (cases c rule: rev_cases) simp_all
  have "dropWhile isspace (rev t @ rev c) = dropWhile isspace (rev t) @ rev c"
  proof (cases "\<forall>x\<in>set (rev t). isspace x")
    case True
    then have "dropWhile isspace (rev t) = []" by simp
    with True b show ?thesis by (simp add: dropWhile_append)
  next
    case False
    then show ?thesis by (auto simp: dropWhile_append)
  qed
  with a show ?thesis by (simp add: py_strip_def)
qed

lemma header_parts_letters:
  "\<exists>w rest. \<forall>cmd. cmd \<noteq> [] \<longrightarrow> list_all is_ascii_letter cmd \<longrightarrow>
      header_parts (cmd @ rst) = (map of_char cmd @ w) # rest"
proof (intro exI allI impI)
  fix cmd :: bytes
  let ?u = "rev (dropWhile isspace (rev (decode_replace rst)))"
  assume ne: "cmd \<noteq> []" and le: "list_all is_ascii_letter cmd"
  from le have ns: "list_all (\<lambda>x. \<not> isspace x) (map of_char cmd)"
    by (simp add: list_all_iff letter_facts(2))
  from ne have ne': "map of_char cmd \<noteq> ([]::nat list)" by simp
  have "header_parts (cmd @ rst) = split_acc [] (map of_char cmd @ ?u)"
    by (simp add: header_parts_def py_split_def decode_letters[OF le] strip_prefix[OF ne' ns])
  also have "\<dots> = split_acc (map of_char cmd) ?u"
    using split_acc_prefix[OF ns, of "[]"] by simp
  also have "\<dots> = (map of_char cmd @ takeWhile (\<lambda>x. \<not> isspace x) ?u)
                     # split_acc [] (dropWhile (\<lambda>x. \<not> isspace x) ?u)"
    by (rule split_acc_cur[OF ne'])
  finally show "header_parts (cmd @ rst) =
      (map of_char cmd @ takeWhile (\<lambda>x. \<not> isspace x) ?u)
        # split_acc [] (dropWhile (\<lambda>x. \<not> isspace x) ?u)" .
qed

lemma py_upper_append: "py_upper E (a @ b) = py_upper E a @ py_upper E b"
  by (simp add: py_upper_def)

lemma py_upper_letters:
  "list_all is_ascii_letter cmd \<Longrightarrow>
   py_upper E (map of_char cmd) = map of_char (map ascii_upper cmd)"
proof (induction cmd)
  case Nil
  then show ?case by (simp add: py_upper_def)
next
  case (Cons b cmd)
  then have l: "is_ascii_letter b" by simp
  have "upper_char E (of_char b) = [of_char (ascii_upper b)]"
    using l letter_facts(1)[OF l] unfolding letter_facts(5)[OF l]
    by (auto simp: upper_char_def is_ascii_letter_def)
  with Cons show ?case by (simp add: py_upper_def)
qed

lemma py_upper_command:
  assumes "list_all is_ascii_letter cmd"
  shows "py_upper E (map of_char (map ascii_upper cmd) @ w) = py_upper E (map of_char cmd @ w)"
proof -
  from assms have l: "list_all is_ascii_letter (map ascii_upper cmd)"
    by (simp add: list_all_iff letter_facts(4))
  from assms have "map ascii_upper (map ascii_upper cmd) = map ascii_upper cmd"
    by (simp add: list_all_iff ascii_upper_idem)
  with py_upper_letters[OF l, of E] py_upper_letters[OF assms, of E] show ?thesis
    by (simp add: py_upper_append)
qed

lemma find_sub_DELIM_Cons:
  "b \<noteq> CHR 0x0D \<Longrightarrow> find_sub DELIM (b # xs) = map_option Suc (find_sub DELIM xs)"
  by (auto simp: DELIM_def)

lemma upper_first_0: "upper_first 0 x = x"
  by (simp add: upper_first_def)

lemma upper_first_Nil: "upper_first n [] = []"
  by (simp add: upper_first_def)

lemma upper_first_Suc: "upper_first (Suc m) (a # xs) = ascii_upper a # upper_first m xs"
  by (simp add: upper_first_def)

lemma length_upper_first: "length (upper_first n x) = length x"
  by (simp add: upper_first_def)

lemma find_sub_upper_first:
  "list_all is_ascii_letter (take n x) \<Longrightarrow> find_sub DELIM (upper_first n x) = find_sub DELIM x"
proof (induction x arbitrary: n)
  case Nil
  then show ?case by (simp add: upper_first_Nil)
next
  case (Cons a xs)
  show ?case
  proof (cases n)
    case 0
    then show ?thesis by (simp add: upper_first_0)
  next
    case (Suc m)
    with Cons.prems have l: "is_ascii_letter a" and r: "list_all is_ascii_letter (take m xs)"
      by simp_all
    from l have "a \<noteq> CHR 0x0D" "ascii_upper a \<noteq> CHR 0x0D"
      using letter_facts(3) letter_facts(4) by blast+
    with Cons.IH[OF r] Suc show ?thesis
      by (simp add: upper_first_Suc find_sub_DELIM_Cons del: find_sub.simps)
  qed
qed

lemma find_sub_after_letters:
  "find_sub DELIM x = Some i \<Longrightarrow> list_all is_ascii_letter (take n x) \<Longrightarrow> n \<le> i"
proof (induction x arbitrary: n i)
  case Nil
  then show ?case by (simp add: DELIM_def)
next
  case (Cons a xs)
  show ?case
  proof (cases n)
    case 0
    then show ?thesis by simp
  next
    case (Suc m)
    with Cons.prems have l: "is_ascii_letter a" and r: "list_all is_ascii_letter (take m xs)"
      by simp_all
    from l have "a \<noteq> CHR 0x0D" by (rule letter_facts(3))
    with Cons.prems(1) obtain j where j: "find_sub DELIM xs = Some j" "i = Suc j"
      by (auto simp: find_sub_DELIM_Cons simp del: find_sub.simps)
    from Cons.IH[OF j(1) r] j(2) Suc show ?thesis by simp
  qed
qed

lemma find_sub_bound: "find_sub pat x = Some i \<Longrightarrow> i + length pat \<le> length x"
proof (induction x arbitrary: i)
  case Nil
  then show ?case by (simp split: if_splits)
next
  case (Cons a xs)
  show ?case
  proof (cases "take (length pat) (a # xs) = pat")
    case True
    then have "length (take (length pat) (a # xs)) = length pat" by simp
    then have "length pat \<le> length (a # xs)" by simp
    with True Cons.prems show ?thesis by simp
  next
    case False
    with Cons.prems obtain j where "find_sub pat xs = Some j" "i = Suc j" by auto
    with Cons.IH[of j] show ?thesis by simp
  qed
qed

lemma drop_upper_first: "n \<le> k \<Longrightarrow> drop k (upper_first n x) = drop k x"
  by (cases "n \<le> length x") (simp_all add: upper_first_def min_def)

lemma leftover_upper_first:
  assumes "bytes_in DELIM x" and "list_all is_ascii_letter (take n x)"
  shows "leftover (upper_first n x) = leftover x"
    and "bytes_find (upper_first n x) DELIM = bytes_find x DELIM"
    and "n \<le> length x"
proof -
  from assms(1) obtain i where i: "find_sub DELIM x = Some i"
    by (auto simp: bytes_in_def)
  from find_sub_after_letters[OF i assms(2)] have ni: "n \<le> i" .
  from find_sub_bound[OF i] ni show "n \<le> length x" by simp
  show "bytes_find (upper_first n x) DELIM = bytes_find x DELIM"
    by (simp add: bytes_find_def find_sub_upper_first[OF assms(2)])
  have "drop (i + 4) (upper_first n x) = drop (i + 4) x"
    using ni by (rule_tac drop_upper_first) simp
  then show "leftover (upper_first n x) = leftover x"
    by (simp add: leftover_def bytes_find_def find_sub_upper_first[OF assms(2)] i
        nat_add_distrib)
qed

lemma do_upload_via_leftover:
  "do_upload E fs f n h s =
     (if n - int (length (leftover h)) < 0 then
        (fs, [SendJson ERROR (JStr (str ''File size smaller than received data''))])
      else (case open_wb_errno E f of
              Some errno \<Rightarrow> (fs, [OpenWrite f, SendJson ERROR (JExc (OSError errno f))])
            | None \<Rightarrow>
                (case fs f of
                   Some (Dir d) \<Rightarrow>
                     (fs, [OpenWrite f, SendJson ERROR (JExc (IsADirectoryError f))])
                 | _ \<Rightarrow>
                     (case upload_loop (n - int (length (leftover h))) (leftover h) s of
                        (remaining', written, s') \<Rightarrow>
                          (fs(f \<mapsto> File written),
                           [OpenWrite f,
                            if remaining' > 0 then
                              SendJson ERROR (JStr (str ''Incomplete file received''))
                            else SendJson OK (JStr (str ''Uploaded '' @ f))])))))"
  by (simp only: do_upload_def leftover_def Let_def)

lemma do_upload_leftover:
  "leftover h1 = leftover h2 \<Longrightarrow> do_upload E fs f n h1 s = do_upload E fs f n h2 s"
  by (simp only: do_upload_via_leftover)

lemma process_request_upper_first:
  assumes "bytes_in DELIM x" and "list_all is_ascii_letter (take n x)"
  shows "process_request E fs (upper_first n x) s = process_request E fs x s"
proof (cases "n = 0")
  case True
  then show ?thesis by (simp add: upper_first_0)
next
  case False
  let ?cmd = "take n x" and ?rst = "drop n x"
  from leftover_upper_first(3)[OF assms] False have ne: "?cmd \<noteq> []" by auto
  have x: "x = ?cmd @ ?rst" by simp
  have ux: "upper_first n x = map ascii_upper ?cmd @ ?rst" by (simp add: upper_first_def)
  from assms(2) have lu: "list_all is_ascii_letter (map ascii_upper ?cmd)"
    by (simp add: list_all_iff letter_facts(4))
  from ne have neu: "map ascii_upper ?cmd \<noteq> []" by simp
  from header_parts_letters[of "drop n x"] obtain w rest where P:
    "\<forall>cmd. cmd \<noteq> [] \<longrightarrow> list_all is_ascii_letter cmd \<longrightarrow>
       header_parts (cmd @ drop n x) = (map of_char cmd @ w) # rest"
    by blast
  define c1 where "c1 = map of_char ?cmd @ w"
  define c2 where "c2 = map of_char (map ascii_upper ?cmd) @ w"
  from P ne assms(2) have "header_parts (?cmd @ ?rst) = c1 # rest"
    unfolding c1_def by blast
  then have p1: "header_parts x = c1 # rest" by simp
  from P neu lu have "header_parts (map ascii_upper ?cmd @ ?rst) = c2 # rest"
    unfolding c2_def by blast
  then have p2: "header_parts (upper_first n x) = c2 # rest"
    unfolding ux .
  have cu: "py_upper E c2 = py_upper E c1"
    unfolding c1_def c2_def by (rule py_upper_command[OF assms(2)])
  have up: "do_upload E fs f k (upper_first n x) s = do_upload E fs f k x s" for f k
    by (rule do_upload_leftover) (rule leftover_upper_first(1)[OF assms])
  show ?thesis
    unfolding process_request_def p1 p2 Let_def
    by (simp add: cu up split: option.splits)
qed

lemma upper_first_take: "take k (upper_first m c) = upper_first m (take k c)"
proof (induction c arbitrary: k m)
  case Nil
  then show ?case by (simp add: upper_first_Nil)
next
  case (Cons a c)
  show ?case
  proof (cases k)
    case 0
    then show ?thesis by (simp add: upper_first_Nil)
  next
    case k: (Suc k')
    show ?thesis
    proof (cases m)
      case 0
      then show ?thesis by (simp add: upper_first_0)
    next
      case (Suc m')
      with k Cons.IH[of k' m'] show ?thesis by (simp add: upper_first_Suc)
    qed
  qed
qed

lemma upper_first_drop: "drop k (upper_first m c) = upper_first (m - k) (drop k c)"
proof (induction c arbitrary: k m)
  case Nil
  then show ?case by (simp add: upper_first_Nil)
next
  case (Cons a c)
  show ?case
  proof (cases k)
    case 0
    then show ?thesis by simp
  next
    case k: (Suc k')
    show ?thesis
    proof (cases m)
      case 0
      then show ?thesis by (simp add: upper_first_0)
    next
      case (Suc m')
      with k Cons.IH[of k' m'] show ?thesis by (simp add: upper_first_Suc)
    qed
  qed
qed

lemma upper_first_append:
  "upper_first n (h @ c) = upper_first n h @ upper_first (n - length h) c"
proof (induction h arbitrary: n)
  case Nil
  then show ?case by (simp add: upper_first_Nil)
next
  case (Cons a h)
  show ?case
  proof (cases n)
    case 0
    then show ?thesis by (simp add: upper_first_0)
  next
    case (Suc m)
    with Cons.IH[of m] show ?thesis by (simp add: upper_first_Suc)
  qed
qed

lemma upper_first_eq_Nil: "upper_first n c = [] \<longleftrightarrow> c = []"
  using length_upper_first[of n c] by (metis length_0_conv)

lemma upper_first_conn_0: "upper_first_conn 0 s = s"
  by (induction s) (simp_all add: upper_first_0)

lemma concat_upper_first_conn: "concat (upper_first_conn n s) = upper_first n (concat s)"
  by (induction s arbitrary: n) (simp_all add: upper_first_Nil upper_first_append)

lemma recv_upper_first:
  "recv k s = (chunk, s') \<Longrightarrow>
   recv k (upper_first_conn m s) = (upper_first m chunk, upper_first_conn (m - length chunk) s')"
proof (cases s)
  case Nil
  then show "recv k s = (chunk, s') \<Longrightarrow> ?thesis"
    by (auto simp: recv_def upper_first_Nil)
next
  case (Cons c cs)
  assume R: "recv k s = (chunk, s')"
  show ?thesis
  proof (cases "length c \<le> k")
    case True
    with R Cons show ?thesis by (auto simp: recv_def length_upper_first)
  next
    case False
    with R Cons have "chunk = take k c" "s' = drop k c # cs" by (auto simp: recv_def)
    with False Cons show ?thesis
      by (simp add: recv_def length_upper_first upper_first_take upper_first_drop)
  qed
qed

lemma map_length_upper_first_conn: "map length (upper_first_conn n s) = map length s"
  by (induction s arbitrary: n) (simp_all add: length_upper_first)

lemma read_header_upper_first:
  "list_all is_ascii_letter (take n (h @ concat s)) \<Longrightarrow>
   read_header (upper_first n h) (upper_first_conn (n - length h) s) =
     map_option (\<lambda>(hdr, s'). (upper_first n hdr, upper_first_conn (n - length hdr) s'))
       (read_header h s)"
proof (induction h s rule: read_header.induct)
  case (1 header_data s)
  from "1.prems" have pre: "list_all is_ascii_letter (take n header_data)" by simp
  have b: "bytes_in DELIM (upper_first n header_data) = bytes_in DELIM header_data"
    by (simp add: bytes_in_def find_sub_upper_first[OF pre])
  show ?case
  proof (cases "bytes_in DELIM header_data")
    case True
    with b show ?thesis
      by (simp add: read_header.simps[of header_data s]
          read_header.simps[of "upper_first n header_data"])
  next
    case False
    obtain chunk s1 where R: "recv BUFFER_SIZE s = (chunk, s1)"
      by (cases "recv BUFFER_SIZE s")
    note R' = recv_upper_first[OF R, of "n - length header_data"]
    show ?thesis
    proof (cases "chunk = []")
      case True
      with False b R R' show ?thesis
        by (simp add: read_header.simps[of header_data s]
            read_header.simps[of "upper_first n header_data"] upper_first_Nil)
    next
      case ne: False
      from "1.prems" recv_concat[OF R]
      have "list_all is_ascii_letter (take n ((header_data @ chunk) @ concat s1))" by simp
      from "1.IH"[OF False R[symmetric] ne this]
      have IH: "read_header (upper_first n (header_data @ chunk))
                  (upper_first_conn (n - length (header_data @ chunk)) s1) =
                map_option (\<lambda>(hdr, s'). (upper_first n hdr, upper_first_conn (n - length hdr) s'))
                  (read_header (header_data @ chunk) s1)" .
      have l: "read_header (upper_first n header_data)
                 (upper_first_conn (n - length header_data) s) =
               read_header (upper_first n (header_data @ chunk))
                 (upper_first_conn (n - length (header_data @ chunk)) s1)"
        using False b R' ne
        by (subst read_header.simps)
           (simp add: upper_first_eq_Nil upper_first_append diff_diff_left)
      have r: "read_header header_data s = read_header (header_data @ chunk) s1"
        using False R ne by (subst read_header.simps) simp
      show ?thesis unfolding l r by (rule IH)
    qed
  qed
qed

text \<open>
  Claim C9.  Take any request that begins with its command, written in ASCII letters of
  any case, and the same stream with those letters in upper case (the canonical
  \<^verbatim>\<open>UPLOAD\<close> or \<^verbatim>\<open>GET\<close> when the command is a case variant of one of them).  The
  handler's run on the two streams is the same: the same storage afterwards and the same
  effects in the same order.
\<close>

theorem command_case_insensitive:
  assumes "concat s = cmd @ rst" and "list_all is_ascii_letter cmd"
  shows "handle_client_raw E fs (upper_first_conn (length cmd) s) = handle_client_raw E fs s \<and>
         concat (upper_first_conn (length cmd) s) = map ascii_upper cmd @ rst \<and>
         map length (upper_first_conn (length cmd) s) = map length s"
proof (intro conjI)
  let ?n = "length cmd"
  from assms have letters: "list_all is_ascii_letter (take ?n ([] @ concat s))" by simp
  from read_header_upper_first[OF letters]
  have sim: "read_header [] (upper_first_conn ?n s) =
     map_option (\<lambda>(hdr, s'). (upper_first ?n hdr, upper_first_conn (?n - length hdr) s'))
       (read_header [] s)"
    by (simp add: upper_first_Nil)
  show "handle_client_raw E fs (upper_first_conn ?n s) = handle_client_raw E fs s"
  proof (cases "read_header [] s")
    case None
    with sim show ?thesis by (simp add: handle_client_raw_def)
  next
    case (Some a)
    obtain hdr s' where a: "a = (hdr, s')" by (cases a)
    from read_header_Some[OF Some[unfolded a]] obtain taken where
      d: "bytes_in DELIM hdr" and t: "hdr = taken" "concat s = taken @ concat s'"
      by auto
    from t assms have pl: "list_all is_ascii_letter (take ?n hdr)"
      by (metis letters append_Nil list_all_append take_append)
    from leftover_upper_first(3)[OF d pl] have "?n - length hdr = 0" by simp
    with sim Some a process_request_upper_first[OF d pl] show ?thesis
      by (simp add: handle_client_raw_def upper_first_conn_0)
  qed
  from assms show "concat (upper_first_conn ?n s) = map ascii_upper cmd @ rst"
    by (simp add: concat_upper_first_conn upper_first_def)
  show "map length (upper_first_conn ?n s) = map length s"
    by (rule map_length_upper_first_conn)
qed

theorem command_case_insensitive_witness:
  "concat [''up'', ''Load a.txt 3'' @ DELIM @ ''abc''] = ''upLoad'' @ '' a.txt 3'' @ DELIM @ ''abc'' \<and>
   list_all is_ascii_letter ''upLoad'' \<and>
   upper_first_conn (length ''upLoad'') [''up'', ''Load a.txt 3'' @ DELIM @ ''abc''] =
     [''UP'', ''LOAD a.txt 3'' @ DELIM @ ''abc''] \<and>
   handle_client_raw ascii_env empty_storage [''UP'', ''LOAD a.txt 3'' @ DELIM @ ''abc''] =
     handle_client_raw ascii_env empty_storage [''up'', ''Load a.txt 3'' @ DELIM @ ''abc''] \<and>
   handle_client_raw ascii_env empty_storage [''up'', ''Load a.txt 3'' @ DELIM @ ''abc''] =
     (empty_storage(str ''a.txt'' \<mapsto> File ''abc''),
      [OpenWrite (str ''a.txt''), SendJson OK (JStr (str ''Uploaded a.txt''))])"
proof -
  have c: "concat [''up'', ''Load a.txt 3'' @ DELIM @ ''abc''] =
      ''upLoad'' @ '' a.txt 3'' @ DELIM @ ''abc''"
    by simp
  have l: "list_all is_ascii_letter ''upLoad''"
    by (simp add: is_ascii_letter_def)
  have u: "upper_first_conn (length ''upLoad'') [''up'', ''Load a.txt 3'' @ DELIM @ ''abc''] =
     [''UP'', ''LOAD a.txt 3'' @ DELIM @ ''abc'']"
    by (simp add: upper_first_def ascii_upper_def char_of_eq_iff)
  have v: "handle_client_raw ascii_env empty_storage [''up'', ''Load a.txt 3'' @ DELIM @ ''abc''] =
     (empty_storage(str ''a.txt'' \<mapsto> File ''abc''),
      [OpenWrite (str ''a.txt''), SendJson OK (JStr (str ''Uploaded a.txt''))])"
    by (simp add: text_eval run_eval)
  from command_case_insensitive[OF c l, of ascii_env empty_storage]
  have "handle_client_raw ascii_env empty_storage
          (upper_first_conn (length ''upLoad'') [''up'', ''Load a.txt 3'' @ DELIM @ ''abc'']) =
        handle_client_raw ascii_env empty_storage [''up'', ''Load a.txt 3'' @ DELIM @ ''abc'']"
    by (rule conjunct1)
  then have e: "handle_client_raw ascii_env empty_storage
          [''UP'', ''LOAD a.txt 3'' @ DELIM @ ''abc''] =
        handle_client_raw ascii_env empty_storage [''up'', ''Load a.txt 3'' @ DELIM @ ''abc'']"
    unfolding u .
  from c l u e v show ?thesis by blast
qed

section \<open>Requests as they arrive on the wire\<close>

text \<open>
  The theorems above speak of the buffer the header loop returns.  The lemmas of this
  section connect it with the bytes of the stream: when the stream is a header, the
  delimiter and further bytes, delivered in chunks of any sizes, the loop returns the
  header, the delimiter and a first part of those bytes; the first tokens of the buffer
  are the tokens of the header; and \<open>leftover\<close> is that first part.
\<close>

lemma ascii_not_cont: "a < 0x80 \<Longrightarrow> \<not> is_cont a" "a < 0x80 \<Longrightarrow> \<not> valid_second b a"
  by (simp_all add: is_cont_def valid_second_def)

lemma utf8_replace_sep:
  "a < 0x80 \<Longrightarrow> utf8_replace (xs @ a # ys) = utf8_replace xs @ a # utf8_replace ys"
proof (induction xs rule: utf8_replace.induct)
  case 1
  then show ?case by simp
next
  case (2 b0 bs)
  note A = ascii_not_cont[OF "2.prems"]
  show ?case
  proof (cases "b0 < 0x80 \<or> b0 < 0xC2 \<or> 0xF5 \<le> b0")
    case True
    with 2 show ?thesis by auto
  next
    case lead: False
    show ?thesis
    proof (cases bs)
      case Nil
      with lead "2.prems" A show ?thesis by simp
    next
      case b1: (Cons b1 bs1)
      show ?thesis
      proof (cases "valid_second b0 b1")
        case False
        with lead b1 "2.IH"(3)[OF _ _ b1 _ "2.prems"] show ?thesis by simp
      next
        case v: True
        show ?thesis
        proof (cases "b0 < 0xE0")
          case True
          with lead b1 v "2.IH"(4)[OF _ _ b1 _ True "2.prems"] show ?thesis by simp
        next
          case three: False
          show ?thesis
          proof (cases bs1)
            case Nil
            with lead b1 v three "2.prems" A show ?thesis by simp
          next
            case b2: (Cons b2 bs2)
            show ?thesis
            proof (cases "is_cont b2")
              case False
              with lead b1 v three b2 "2.IH"(5)[OF _ _ b1 _ three b2 _ "2.prems"]
              show ?thesis by simp
            next
              case c2: True
              show ?thesis
              proof (cases "b0 < 0xF0")
                case True
                with lead b1 v three b2 c2 "2.IH"(6)[OF _ _ b1 _ three b2 _ True "2.prems"]
                show ?thesis by simp
              next
                case four: False
                show ?thesis
                proof (cases bs2)
                  case Nil
                  with lead b1 v three b2 c2 four "2.prems" A show ?thesis by simp
                next
                  case b3: (Cons b3 bs3)
                  show ?thesis
                  proof (cases "is_cont b3")
                    case False
                    with lead b1 v three b2 c2 four b3
                      "2.IH"(7)[OF _ _ b1 _ three b2 _ four b3 _ "2.prems"]
                    show ?thesis by simp
                  next
                    case True
                    with lead b1 v three b2 c2 four b3
                      "2.IH"(8)[OF _ _ b1 _ three b2 _ four b3 _ "2.prems"]
                    show ?thesis by simp
                  qed
                qed
              qed
            qed
          qed
        qed
      qed
    qed
  qed
qed

lemma take_append_short: "n \<le> length x \<Longrightarrow> take n (x @ y) = take n x"
  by simp

lemma find_sub_append_Some: "find_sub p x = Some i \<Longrightarrow> find_sub p (x @ y) = Some i"
proof (induction x arbitrary: i)
  case Nil
  then show ?case by (cases y) (simp_all split: if_splits)
next
  case (Cons a xs)
  show ?case
  proof (cases "take (length p) (a # xs) = p")
    case True
    then have "length (take (length p) (a # xs)) = length p" by simp
    then have "length p \<le> length (a # xs)" by simp
    from take_append_short[OF this, of y] True have "take (length p) (a # xs @ y) = p"
      by simp
    with True Cons.prems show ?thesis by simp
  next
    case False
    with Cons.prems obtain j where j: "find_sub p xs = Some j" "i = Suc j" by auto
    from find_sub_bound[OF j(1)] have "length p \<le> length (a # xs)" by simp
    from take_append_short[OF this, of y] False have "take (length p) (a # xs @ y) \<noteq> p"
      by simp
    with Cons.IH[OF j(1)] j(2) show ?thesis by simp
  qed
qed

lemma length_DELIM: "length DELIM = 4"
  by (simp add: DELIM_def)

lemma read_header_total:
  "[] \<notin> set s \<Longrightarrow> bytes_in DELIM (h @ concat s) \<Longrightarrow>
   \<exists>hdr s'. read_header h s = Some (hdr, s') \<and> [] \<notin> set s'"
proof (induction h s rule: read_header.induct)
  case (1 header_data s)
  show ?case
  proof (cases "bytes_in DELIM header_data")
    case True
    with "1.prems" show ?thesis by (simp add: read_header.simps[of header_data s])
  next
    case False
    obtain chunk s1 where R: "recv BUFFER_SIZE s = (chunk, s1)"
      by (cases "recv BUFFER_SIZE s")
    from False "1.prems"(2) have "s \<noteq> []" by auto
    with recv_live[OF "1.prems"(1) _ _ R] have C: "chunk \<noteq> []" "[] \<notin> set s1"
      by (auto simp: BUFFER_SIZE_def)
    from "1.prems"(2) recv_concat[OF R]
    have "bytes_in DELIM ((header_data @ chunk) @ concat s1)" by simp
    from "1.IH"[OF False R[symmetric] C(1) C(2) this] False R C(1) show ?thesis
      by (simp add: read_header.simps[of header_data s])
  qed
qed

lemma header_on_wire:
  assumes "concat s = H @ DELIM @ B" and "[] \<notin> set s"
    and "find_sub DELIM (H @ DELIM) = Some (length H)"
  shows "\<exists>P s'. read_header [] s = Some (H @ DELIM @ P, s') \<and> P @ concat s' = B \<and>
           [] \<notin> set s' \<and> leftover (H @ DELIM @ P) = P"
proof -
  from find_sub_append_Some[OF assms(3), of B] assms(1)
  have all: "find_sub DELIM (concat s) = Some (length H)" by simp
  then have "bytes_in DELIM ([] @ concat s)" by (simp add: bytes_in_def)
  from read_header_total[OF assms(2) this] obtain hdr s' where
    R: "read_header [] s = Some (hdr, s')" and ne: "[] \<notin> set s'" by blast
  from read_header_Some[OF R] have d: "bytes_in DELIM hdr" and c: "concat s = hdr @ concat s'"
    by auto
  from d obtain j where j: "find_sub DELIM hdr = Some j" by (auto simp: bytes_in_def)
  from find_sub_append_Some[OF j, of "concat s'"] c all have jH: "j = length H" by simp
  from find_sub_bound[OF j] jH have len: "length (H @ DELIM) \<le> length hdr"
    by (simp add: length_DELIM)
  define P where "P = drop (length (H @ DELIM)) hdr"
  from c assms(1) have e: "hdr @ concat s' = (H @ DELIM) @ B" by simp
  from len e have pre: "take (length (H @ DELIM)) hdr = H @ DELIM"
    by (metis append_eq_append_conv_if append_eq_conv_conj)
  then have hdr: "hdr = H @ DELIM @ P"
    unfolding P_def by (metis append_assoc append_take_drop_id)
  with e have PB: "P @ concat s' = B" by simp
  have "leftover hdr = P"
    by (simp add: leftover_def bytes_find_def j jH P_def length_DELIM nat_add_distrib)
  with R ne PB hdr show ?thesis by blast
qed

lemma no_CR_delimiter:
  "CHR 0x0D \<notin> set H \<Longrightarrow> find_sub DELIM (H @ DELIM) = Some (length H)"
proof (induction H)
  case Nil
  then show ?case by (simp add: DELIM_def)
next
  case (Cons a H)
  then have "a \<noteq> CHR 0x0D" by auto
  with Cons show ?case by (simp add: find_sub_DELIM_Cons del: find_sub.simps)
qed

lemma split_acc_space:
  "isspace w \<Longrightarrow> split_acc cur (a @ w # t) = split_acc cur a @ split_acc [] t"
  by (induction a arbitrary: cur) simp_all

lemma split_acc_leading: "split_acc [] (dropWhile isspace x) = split_acc [] x"
  by (induction x) simp_all

lemma split_acc_spaces: "list_all isspace ws \<Longrightarrow> split_acc cur ws = split_acc cur []"
  by (induction ws arbitrary: cur) simp_all

lemma split_acc_trailing:
  "list_all isspace ws \<Longrightarrow> split_acc cur (y @ ws) = split_acc cur y"
  by (induction y arbitrary: cur) (simp_all add: split_acc_spaces)

lemma split_strip: "py_split (py_strip x) = py_split x"
proof -
  let ?y = "dropWhile isspace x"
  have "?y = rev (dropWhile isspace (rev ?y)) @ rev (takeWhile isspace (rev ?y))"
    by (metis rev_append rev_rev_ident takeWhile_dropWhile_id)
  moreover have "list_all isspace (rev (takeWhile isspace (rev ?y)))"
    by (simp add: list_all_iff) (meson set_takeWhileD)
  ultimately have "split_acc [] ?y = split_acc [] (rev (dropWhile isspace (rev ?y)))"
    by (metis split_acc_trailing)
  then show ?thesis
    by (simp add: py_split_def py_strip_def split_acc_leading)
qed

lemma header_parts_on_wire:
  "header_parts (H @ DELIM @ P) = header_parts H @ header_parts P"
proof -
  have "decode_replace (H @ DELIM @ P) =
          utf8_replace (map of_char H @ 0x0D # [0x0A, 0x0D, 0x0A] @ map of_char P)"
    by (simp add: decode_replace_def DELIM_def)
  also have "\<dots> = decode_replace H @ 0x0D # utf8_replace ([0x0A, 0x0D, 0x0A] @ map of_char P)"
    unfolding decode_replace_def by (rule utf8_replace_sep) simp
  also have "utf8_replace ([0x0A, 0x0D, 0x0A] @ map of_char P) =
             [0x0A, 0x0D, 0x0A] @ decode_replace P"
    unfolding decode_replace_def by (rule utf8_replace_ascii) simp
  finally have "header_parts (H @ DELIM @ P) =
          split_acc [] (decode_replace H @ 0x0D # [0x0A, 0x0D, 0x0A] @ decode_replace P)"
    by (simp add: header_parts_def split_strip) (simp add: py_split_def)
  also have "\<dots> = split_acc [] (decode_replace H) @
                     split_acc [] ([0x0A, 0x0D, 0x0A] @ decode_replace P)"
    by (rule split_acc_space) (simp add: isspace_def)
  also have "split_acc [] ([0x0A, 0x0D, 0x0A] @ decode_replace P) =
             split_acc [] (decode_replace P)"
    by (simp add: isspace_def)
  finally show ?thesis
    by (simp add: header_parts_def split_strip) (simp add: py_split_def)
qed

text \<open>
  A request on the wire meets the premises of the theorems: a header of at least three
  tokens that holds no delimiter before its end, then the delimiter, then the payload, in
  chunks of any sizes.
\<close>

lemma request_on_wire:
  assumes "concat s = H @ DELIM @ B" and "[] \<notin> set s"
    and "find_sub DELIM (H @ DELIM) = Some (length H)"
    and "header_parts H = c # f # z # rest"
  shows "\<exists>hdr s' rest'. read_header [] s = Some (hdr, s') \<and>
           header_parts hdr = c # f # z # rest' \<and>
           leftover hdr @ concat s' = B \<and> [] \<notin> set s'"
proof -
  from header_on_wire[OF assms(1,2,3)] obtain P s' where
    R: "read_header [] s = Some (H @ DELIM @ P, s')" "P @ concat s' = B" "[] \<notin> set s'"
       "leftover (H @ DELIM @ P) = P"
    by blast
  from header_parts_on_wire[of H P] assms(4)
  have "header_parts (H @ DELIM @ P) = c # f # z # (rest @ header_parts P)" by simp
  with R show ?thesis by (metis (no_types))
qed

text \<open>
  Claim C1.  Let the bytes of a connection be a header, the delimiter and a payload \<open>B\<close>,
  delivered in chunks of any sizes and followed by the close, where the header holds no
  delimiter before its end and reads as an UPLOAD of \<open>length B\<close> bytes under a valid file
  name \<open>f\<close>, and let the destination open for writing.  Then the upload is answered OK and
  stores \<open>B\<close> under \<open>f\<close>.  Let a second connection deliver, in the same way, a header that
  reads as a GET of \<open>f\<close>, on any storage whose entry for \<open>f\<close> is still the one the upload
  left.  Then the GET changes nothing and sends the response OK carrying
  \<^verbatim>\<open>filesize\<close> \<open>= length B\<close>, then the pieces of the file, which hold no further response
  and make up exactly \<open>B\<close>.  \<open>B\<close> may be empty.
\<close>

theorem upload_get_roundtrip:
  assumes "concat s = H @ DELIM @ B" and "[] \<notin> set s"
    and "find_sub DELIM (H @ DELIM) = Some (length H)"
    and "header_parts H = c # f # z # rest"
    and "py_upper E c = str ''UPLOAD''"
    and "is_valid_filename E f"
    and "py_int E z = Some (int (length B))"
    and "opens_for_write E fs f"
    and "concat g = G @ DELIM @ X" and "[] \<notin> set g"
    and "find_sub DELIM (G @ DELIM) = Some (length G)"
    and "header_parts G = c2 # f # z2 # rest2"
    and "py_upper E c2 = str ''GET''"
    and "py_int E z2 = Some n"
    and "fs2 f = fst (handle_client_raw E fs s) f"
  shows "handle_client_raw E fs s =
           (fs(f \<mapsto> File B), [OpenWrite f, SendJson OK (JStr (str ''Uploaded '' @ f))]) \<and>
         handle_client_raw E fs2 g =
           (fs2, [PathExists f, GetSize f, SendJson OK (JFileInfo f (length B)), OpenRead f]
                 @ send_file B) \<and>
         responses (send_file B) = [] \<and> payload (send_file B) = B"
proof -
  from request_on_wire[OF assms(1-4)] obtain hdr s' rest' where
    U: "read_header [] s = Some (hdr, s')" "header_parts hdr = c # f # z # rest'"
       "leftover hdr @ concat s' = B" "[] \<notin> set s'"
    by blast
  from request_on_wire[OF assms(9-12)] obtain hdr2 g' rest2' where
    D: "read_header [] g = Some (hdr2, g')" "header_parts hdr2 = c2 # f # z2 # rest2'"
    by blast
  show ?thesis
    by (rule roundtrip_core[where fs = fs and fsg = fs2,
          OF U(1,2) assms(5-7) U(3,4) assms(8) D(1,2) assms(13-15)])
qed

theorem upload_get_roundtrip_witness:
  "concat [''UPLO'', ''AD a.txt 3'' @ [CHR 0x0D, CHR 0x0A], [CHR 0x0D, CHR 0x0A] @ ''a'', ''bc''] =
     ''UPLOAD a.txt 3'' @ DELIM @ ''abc'' \<and>
   find_sub DELIM (''UPLOAD a.txt 3'' @ DELIM) = Some (length ''UPLOAD a.txt 3'') \<and>
   header_parts ''UPLOAD a.txt 3'' = [str ''UPLOAD'', str ''a.txt'', str ''3''] \<and>
   py_int ascii_env (str ''3'') = Some (int (length ''abc'')) \<and>
   opens_for_write ascii_env empty_storage (str ''a.txt'') \<and>
   concat [''GET a.t'', ''xt 0'' @ DELIM] = ''GET a.txt 0'' @ DELIM @ [] \<and>
   header_parts ''GET a.txt 0'' = [str ''GET'', str ''a.txt'', str ''0''] \<and>
   handle_client_raw ascii_env empty_storage
       [''UPLO'', ''AD a.txt 3'' @ [CHR 0x0D, CHR 0x0A], [CHR 0x0D, CHR 0x0A] @ ''a'', ''bc''] =
     (empty_storage(str ''a.txt'' \<mapsto> File ''abc''),
      [OpenWrite (str ''a.txt''), SendJson OK (JStr (str ''Uploaded '' @ str ''a.txt''))]) \<and>
   handle_client_raw ascii_env (empty_storage(str ''a.txt'' \<mapsto> File ''abc''))
       [''GET a.t'', ''xt 0'' @ DELIM] =
     (empty_storage(str ''a.txt'' \<mapsto> File ''abc''),
      [PathExists (str ''a.txt''), GetSize (str ''a.txt''),
       SendJson OK (JFileInfo (str ''a.txt'') (length ''abc'')), OpenRead (str ''a.txt'')]
      @ send_file ''abc'') \<and>
   payload (send_file ''abc'') = ''abc''"
proof -
  let ?s = "[''UPLO'', ''AD a.txt 3'' @ [CHR 0x0D, CHR 0x0A], [CHR 0x0D, CHR 0x0A] @ ''a'', ''bc'']"
  let ?g = "[''GET a.t'', ''xt 0'' @ DELIM]"
  have c: "concat ?s = ''UPLOAD a.txt 3'' @ DELIM @ ''abc''"
    by (simp add: DELIM_def)
  have e: "[] \<notin> set ?s" by simp
  have d: "find_sub DELIM (''UPLOAD a.txt 3'' @ DELIM) = Some (length ''UPLOAD a.txt 3'')"
    by (simp add: DELIM_def)
  have p: "header_parts ''UPLOAD a.txt 3'' = [str ''UPLOAD'', str ''a.txt'', str ''3'']"
    by (simp add: text_eval)
  have u: "py_upper ascii_env (str ''UPLOAD'') = str ''UPLOAD''"
    by (simp add: text_eval)
  have v: "is_valid_filename ascii_env (str ''a.txt'')"
    by (simp add: text_eval)
  have i: "py_int ascii_env (str ''3'') = Some (int (length ''abc''))"
    by (simp add: text_eval ascii_env_def)
  have o: "opens_for_write ascii_env empty_storage (str ''a.txt'')"
    by (simp add: opens_for_write_def is_dir_def empty_storage_def ascii_env_def str_def)
  have c2: "concat ?g = ''GET a.txt 0'' @ DELIM @ []" by simp
  have e2: "[] \<notin> set ?g" by (simp add: DELIM_def)
  have d2: "find_sub DELIM (''GET a.txt 0'' @ DELIM) = Some (length ''GET a.txt 0'')"
    by (simp add: DELIM_def)
  have p2: "header_parts ''GET a.txt 0'' = [str ''GET'', str ''a.txt'', str ''0'']"
    by (simp add: text_eval)
  have u2: "py_upper ascii_env (str ''GET'') = str ''GET''"
    by (simp add: text_eval)
  have i2: "py_int ascii_env (str ''0'') = Some 0"
    by (simp add: text_eval ascii_env_def)
  have first: "handle_client_raw ascii_env empty_storage ?s =
     (empty_storage(str ''a.txt'' \<mapsto> File ''abc''),
      [OpenWrite (str ''a.txt''), SendJson OK (JStr (str ''Uploaded '' @ str ''a.txt''))])"
    by (simp add: text_eval run_eval)
  have same: "(empty_storage(str ''a.txt'' \<mapsto> File ''abc'')) (str ''a.txt'') =
     fst (handle_client_raw ascii_env empty_storage ?s) (str ''a.txt'')"
    unfolding first by simp
  note T = upload_get_roundtrip[OF c e d p u v i o c2 e2 d2 p2 u2 i2,
      of "empty_storage(str ''a.txt'' \<mapsto> File ''abc'')", OF same]
  from T c d p i o c2 p2 show ?thesis by blast
qed

text \<open>
  A destination that the file system refuses (a name of 256 letters passes the pattern
  of \<^verbatim>\<open>is_valid_filename\<close>): \<^verbatim>\<open>open\<close> raises, the answer is the text of the error and
  nothing is stored.
\<close>

lemma upload_refused_name:
  assumes "read_header [] s = Some (hdr, s')"
    and "header_parts hdr = c # f # z # rest"
    and "py_upper E c = str ''UPLOAD''"
    and "is_valid_filename E f"
    and "py_int E z = Some filesize"
    and "int (length (leftover hdr)) \<le> filesize"
    and "open_wb_errno E f = Some errno"
  shows "handle_client_raw E fs s =
           (fs, [OpenWrite f, SendJson ERROR (JExc (OSError errno f))])"
  using assms
  by (simp add: handle_client_raw_def process_request_parts do_upload_def leftover_def Let_def)

end
